theory Spec2Isabelle
  imports Complex_Main "HOL-Library.Log_Nat"
begin

section \<open>The button network of \<^verbatim>\<open>docs/agentpy_button_network.ipynb\<close>\<close>

text \<open>
  The notebook defines one class, \<^verbatim>\<open>ButtonModel\<close>, with the three methods
  \<^verbatim>\<open>setup\<close>, \<^verbatim>\<open>update\<close> and \<^verbatim>\<open>step\<close>. They are embedded below as functions on
  an explicit model state. Every Python exception is a value of \<open>error\<close>; a method
  that can raise returns \<open>error + 'a\<close> with \<open>Inl\<close> for the exception.

  Numbers: Python's unbounded integers are \<open>int\<close>. A Python float is a binary64
  number: a rational number, an infinity or NaN (type \<open>pyfloat\<close>; a finite float is
  given by its value, and what is proved of every rational value holds of every float).
  The product \<^verbatim>\<open>self.p.n * self.p.speed\<close> and its conversion \<^verbatim>\<open>int(...)\<close>, which decide
  how often the loop of \<^verbatim>\<open>step\<close> runs, are computed as Python computes them: the
  integer is converted to a float, the product is rounded to the nearest float (ties to
  even), overflows to an infinity, and \<^verbatim>\<open>int\<close> raises on an infinity and on NaN. The two
  quotients that \<^verbatim>\<open>update\<close> records are kept as exact rational numbers (type \<open>rat\<close>);
  their rounding to the nearest float is outside the model.
\<close>

datatype error =
  InvalidConfiguration | ValueError | ZeroDivisionError | KeyError | OverflowError

datatype pyfloat = Finite rat | PosInf | NegInf | NaN

record parameters =
  p_n :: int
  p_speed :: pyfloat
  p_steps :: int

subsection \<open>The graph library: an undirected simple graph and its components\<close>

text \<open>
  \<^verbatim>\<open>networkx.Graph\<close>: nodes in insertion order, and an edge relation without
  orientation and without multiplicity. \<^verbatim>\<open>add_edge(u, v)\<close> first makes sure both
  end points are nodes; tying a pair that is already tied leaves the graph as it is.
\<close>

record graph =
  nodes :: "nat list"
  edges :: "(nat \<times> nat) list"

definition empty_graph :: graph where
  "empty_graph = \<lparr>nodes = [], edges = []\<rparr>"

definition add_node :: "nat \<Rightarrow> graph \<Rightarrow> graph" where
  "add_node v G = (if v \<in> set (nodes G) then G else G\<lparr>nodes := nodes G @ [v]\<rparr>)"

definition has_edge :: "nat \<Rightarrow> nat \<Rightarrow> graph \<Rightarrow> bool" where
  "has_edge u v G = ((u, v) \<in> set (edges G) \<or> (v, u) \<in> set (edges G))"

definition add_edge :: "nat \<Rightarrow> nat \<Rightarrow> graph \<Rightarrow> graph" where
  "add_edge u v G =
     (let G' = add_node v (add_node u G)
      in if has_edge u v G' then G' else G'\<lparr>edges := (u, v) # edges G'\<rparr>)"

text \<open>
  \<^verbatim>\<open>networkx.connected_components(G)\<close> yields the node sets of the components of
  \<open>G\<close>, each once. Here a component is a duplicate-free list of nodes and its
  \<^verbatim>\<open>len\<close> is the length of the list. The components are computed from the
  singletons by joining, edge after edge, the components that the edge touches.
\<close>

definition touches :: "nat \<times> nat \<Rightarrow> nat list \<Rightarrow> bool" where
  "touches e c = (fst e \<in> set c \<or> snd e \<in> set c)"

definition join_clusters :: "nat \<times> nat \<Rightarrow> nat list list \<Rightarrow> nat list list" where
  "join_clusters e cs =
     (case filter (touches e) cs of
        [] \<Rightarrow> cs
      | t # ts \<Rightarrow> concat (t # ts) # filter (\<lambda>c. \<not> touches e c) cs)"

fun clusters_from :: "nat list \<Rightarrow> (nat \<times> nat) list \<Rightarrow> nat list list" where
  "clusters_from vs [] = map (\<lambda>v. [v]) vs"
| "clusters_from vs (e # es) = join_clusters e (clusters_from vs es)"

definition connected_components :: "graph \<Rightarrow> nat list list" where
  "connected_components G = clusters_from (nodes G) (edges G)"

subsection \<open>The agent library: agents, the network of their nodes, the generator\<close>

text \<open>
  An agent has an identity and, once \<^verbatim>\<open>setup\<close> has assigned it, the attribute
  \<^verbatim>\<open>node\<close>. \<^verbatim>\<open>ap.AgentList(model, k)\<close> makes \<open>k\<close> new agents (none for
  \<open>k \<le> 0\<close>, as \<^verbatim>\<open>range(k)\<close> is empty); they are represented by their identities
  until the nodes are assigned. \<^verbatim>\<open>ap.Network\<close> holds a graph and the dictionary
  \<^verbatim>\<open>positions\<close> from agents to nodes; \<^verbatim>\<open>add_agents\<close> gives every agent a new node.
\<close>

record agent =
  ident :: nat
  node :: nat

record network =
  graph :: graph
  positions :: "nat \<rightharpoonup> nat"

definition Network :: network where
  "Network = \<lparr>graph = empty_graph, positions = Map.empty\<rparr>"

definition AgentList :: "int \<Rightarrow> nat list" where
  "AgentList k = [0..<nat k]"

fun add_agents :: "network \<Rightarrow> nat list \<Rightarrow> network" where
  "add_agents net [] = net"
| "add_agents net (a # as) =
     (let v = length (nodes (graph net))
      in add_agents \<lparr>graph = add_node v (graph net), positions = (positions net)(a \<mapsto> v)\<rparr> as)"

text \<open>
  The model's random number generator: the sequence of raw numbers that its seed
  determines, and how many of them have been consumed.
\<close>

record generator =
  raw :: "nat \<Rightarrow> nat"
  drawn :: nat

definition randbelow :: "nat \<Rightarrow> generator \<Rightarrow> nat \<times> generator" where
  "randbelow k g = (raw g (drawn g) mod k, g\<lparr>drawn := Suc (drawn g)\<rparr>)"

text \<open>
  Modelled from the spec: \<^verbatim>\<open>AgentList.random(2)\<close>, which is not part of the notebook.
  The spec asks for two distinct nodes, uniform over the pairs of distinct nodes, drawn
  anew for every edge, and names \<open>n < 2\<close> as the case with no valid pair. The first
  agent is drawn among all agents and the second among the others, so that a self-pair
  never comes out and nothing has to be drawn again.
\<close>

definition random2 :: "agent list \<Rightarrow> generator \<Rightarrow> error + ((agent \<times> agent) \<times> generator)" where
  "random2 as g =
     (if length as < 2 then Inl ValueError
      else let (i, g1) = randbelow (length as) g;
               (j, g2) = randbelow (length as - 1) g1;
               j' = (if j < i then j else Suc j)
           in Inr ((as ! i, as ! j'), g2))"

subsection \<open>The model state\<close>

record ButtonModel =
  params :: parameters
  buttons :: network
  agents :: "agent list"
  threads :: int
  log_vars :: "string \<rightharpoonup> rat list"
  rng :: generator

definition new_model :: "parameters \<Rightarrow> generator \<Rightarrow> ButtonModel" where
  "new_model p g =
     \<lparr>params = p, buttons = Network, agents = [], threads = 0,
      log_vars = Map.empty, rng = g\<rparr>"

text \<open>
  Modelled from the spec: \<^verbatim>\<open>Model.record(key, value)\<close>, which is not part of the
  notebook. The recorded series are append-only; one call appends one value to the
  series of its key.
\<close>

definition series :: "string \<Rightarrow> ButtonModel \<Rightarrow> rat list" where
  "series key m = (case log_vars m key of None \<Rightarrow> [] | Some xs \<Rightarrow> xs)"

definition record_var :: "string \<Rightarrow> rat \<Rightarrow> ButtonModel \<Rightarrow> ButtonModel" where
  "record_var key x m = m\<lparr>log_vars := (log_vars m)(key \<mapsto> series key m @ [x])\<rparr>"

subsection \<open>Python primitives\<close>

definition py_max :: "int list \<Rightarrow> error + int" where
  "py_max xs = (case xs of [] \<Rightarrow> Inl ValueError | x # ys \<Rightarrow> Inr (fold max ys x))"

definition truediv :: "int \<Rightarrow> int \<Rightarrow> error + rat" where
  "truediv a b = (if b = 0 then Inl ZeroDivisionError else Inr (of_int a / of_int b))"

text \<open>
  Binary64 arithmetic. \<open>round_even\<close> rounds to the nearest integer, a tie to the even
  one. \<open>ilog2 x\<close> is the exponent of the leading bit of a positive \<open>x\<close>, the integer
  \<open>l\<close> with \<open>2\<^sup>l \<le> x < 2\<^sup>l\<^sup>+\<^sup>1\<close>. \<open>to_float x\<close> is the float nearest to the exact
  number \<open>x\<close>: the floats around \<open>x\<close> are the multiples of \<open>2\<^sup>e\<close>, where \<open>e\<close> lies
  52 below the leading bit (a significand of 53 bits) and is at least \<open>-1074\<close> (the
  subnormal numbers); the result is an infinity when the rounded significand no longer
  fits below \<open>2\<^sup>1\<^sup>0\<^sup>2\<^sup>4\<close>.
\<close>

definition round_even :: "rat \<Rightarrow> int" where
  "round_even x =
     (let f = \<lfloor>x\<rfloor>; d = x - of_int f
      in if d < 1 / 2 then f else if 1 / 2 < d then f + 1 else if even f then f else f + 1)"

definition ilog2 :: "rat \<Rightarrow> int" where
  "ilog2 x =
     (let (p, q) = quotient_of x; c = bitlen p - bitlen q
      in if 2 powi c \<le> x then c else c - 1)"

definition to_float :: "rat \<Rightarrow> pyfloat" where
  "to_float x =
     (if x = 0 then Finite 0
      else let e = max (ilog2 \<bar>x\<bar> - 52) (- 1074);
               m = round_even (x / 2 powi e)
           in if 971 < e \<or> e = 971 \<and> 2 ^ 53 \<le> \<bar>m\<bar>
              then (if 0 < x then PosInf else NegInf)
              else Finite (of_int m * 2 powi e))"

text \<open>
  \<^verbatim>\<open>float(k)\<close> for an integer \<open>k\<close>, as the product converts its left operand: the
  nearest float, and OverflowError when there is none. Then the product of a finite
  float and any float, and \<^verbatim>\<open>int(x)\<close> for a float \<open>x\<close>, which truncates towards zero.
\<close>

definition float_of_int :: "int \<Rightarrow> error + rat" where
  "float_of_int k =
     (case to_float (of_int k) of Finite y \<Rightarrow> Inr y | _ \<Rightarrow> Inl OverflowError)"

fun float_mul :: "rat \<Rightarrow> pyfloat \<Rightarrow> pyfloat" where
  "float_mul a (Finite b) = to_float (a * b)"
| "float_mul a PosInf = (if a = 0 then NaN else if 0 < a then PosInf else NegInf)"
| "float_mul a NegInf = (if a = 0 then NaN else if 0 < a then NegInf else PosInf)"
| "float_mul a NaN = NaN"

fun py_int :: "pyfloat \<Rightarrow> error + int" where
  "py_int (Finite x) = Inr (if 0 \<le> x then \<lfloor>x\<rfloor> else \<lceil>x\<rceil>)"
| "py_int PosInf = Inl OverflowError"
| "py_int NegInf = Inl OverflowError"
| "py_int NaN = Inl ValueError"

fun for_range :: "nat \<Rightarrow> (ButtonModel \<Rightarrow> error + ButtonModel) \<Rightarrow> ButtonModel \<Rightarrow> error + ButtonModel" where
  "for_range 0 body m = Inr m"
| "for_range (Suc k) body m =
     (case body m of Inl e \<Rightarrow> Inl e | Inr m' \<Rightarrow> for_range k body m')"

subsection \<open>The methods of \<^verbatim>\<open>ButtonModel\<close>\<close>

text \<open>
  \<open>setup_model\<close> is the method \<^verbatim>\<open>setup\<close>, \<open>tie\<close> is the body of the loop of
  \<^verbatim>\<open>step\<close>, and \<open>loop_bound\<close> is the bound \<^verbatim>\<open>int(self.p.n * self.p.speed)\<close> of
  that loop, with the exceptions that the conversions raise.
\<close>

fun assign_nodes :: "network \<Rightarrow> nat list \<Rightarrow> error + agent list" where
  "assign_nodes net [] = Inr []"
| "assign_nodes net (a # as) =
     (case positions net a of
        None \<Rightarrow> Inl KeyError
      | Some v \<Rightarrow>
          (case assign_nodes net as of
             Inl e \<Rightarrow> Inl e
           | Inr rest \<Rightarrow> Inr (\<lparr>ident = a, node = v\<rparr> # rest)))"

definition setup_model :: "ButtonModel \<Rightarrow> error + ButtonModel" where
  "setup_model m =
     (let ids = AgentList (p_n (params m));
          net = add_agents Network ids
      in case assign_nodes net ids of
           Inl e \<Rightarrow> Inl e
         | Inr as \<Rightarrow> Inr (m\<lparr>buttons := net, agents := as, threads := 0\<rparr>))"

definition update :: "ButtonModel \<Rightarrow> error + ButtonModel" where
  "update m =
     (let clusters = connected_components (graph (buttons m))
      in case py_max (map (\<lambda>g. int (length g)) clusters) of
           Inl e \<Rightarrow> Inl e
         | Inr biggest \<Rightarrow>
             (case truediv biggest (p_n (params m)) of
                Inl e \<Rightarrow> Inl e
              | Inr max_cluster_size \<Rightarrow>
                  (let m1 = record_var ''max_cluster_size'' max_cluster_size m
                   in case truediv (threads m1) (p_n (params m1)) of
                        Inl e \<Rightarrow> Inl e
                      | Inr ratio \<Rightarrow> Inr (record_var ''threads_to_button'' ratio m1))))"

definition tie :: "ButtonModel \<Rightarrow> error + ButtonModel" where
  "tie m =
     (case random2 (agents m) (rng m) of
        Inl e \<Rightarrow> Inl e
      | Inr ((a, b), g) \<Rightarrow>
          Inr (m\<lparr>buttons := (buttons m)\<lparr>graph := add_edge (node a) (node b) (graph (buttons m))\<rparr>,
                 threads := threads m + 1,
                 rng := g\<rparr>))"

definition loop_bound :: "parameters \<Rightarrow> error + int" where
  "loop_bound p =
     (case float_of_int (p_n p) of
        Inl e \<Rightarrow> Inl e
      | Inr a \<Rightarrow> py_int (float_mul a (p_speed p)))"

definition step :: "ButtonModel \<Rightarrow> error + ButtonModel" where
  "step m =
     (case loop_bound (params m) of
        Inl e \<Rightarrow> Inl e
      | Inr k \<Rightarrow> for_range (nat k) tie m)"

text \<open>
  The number of passes of the loop of \<^verbatim>\<open>step\<close>: as many as \<^verbatim>\<open>range\<close> makes of the
  bound, none for a negative bound, and none when the bound raises, as \<^verbatim>\<open>step\<close> then
  raises before the loop.
\<close>

definition edges_per_step :: "parameters \<Rightarrow> nat" where
  "edges_per_step p = (case loop_bound p of Inl e \<Rightarrow> 0 | Inr k \<Rightarrow> nat k)"

subsection \<open>The driver\<close>

text \<open>
  Modelled from the spec: the run loop of the agent library (\<^verbatim>\<open>Model.run\<close>), which is
  not part of the notebook. Construction makes the model from its parameters and calls
  \<^verbatim>\<open>setup\<close>; \<open>runStep\<close> adds the step's edges and then records the two metrics;
  \<open>run\<close> calls \<open>runStep\<close> exactly \<open>steps\<close> times and returns the MetricsLog, the
  sequence of pairs (threads to node ratio, largest cluster fraction).
\<close>

definition construction :: "parameters \<Rightarrow> generator \<Rightarrow> error + ButtonModel" where
  "construction p g = setup_model (new_model p g)"

definition runStep :: "ButtonModel \<Rightarrow> error + ButtonModel" where
  "runStep m = (case step m of Inl e \<Rightarrow> Inl e | Inr m' \<Rightarrow> update m')"

definition simulate :: "parameters \<Rightarrow> generator \<Rightarrow> error + ButtonModel" where
  "simulate p g =
     (case construction p g of
        Inl e \<Rightarrow> Inl e
      | Inr m \<Rightarrow> for_range (nat (p_steps p)) runStep m)"

definition MetricsLog :: "ButtonModel \<Rightarrow> (rat \<times> rat) list" where
  "MetricsLog m = zip (series ''threads_to_button'' m) (series ''max_cluster_size'' m)"

definition run :: "parameters \<Rightarrow> generator \<Rightarrow> error + (rat \<times> rat) list" where
  "run p g = (case simulate p g of Inl e \<Rightarrow> Inl e | Inr m \<Rightarrow> Inr (MetricsLog m))"

text \<open>A generator for concrete runs: its raw numbers are 0, 1, 2, ...\<close>

definition counting :: generator where
  "counting = \<lparr>raw = id, drawn = 0\<rparr>"

subsection \<open>Notions used in the statements\<close>

text \<open>The length of the longest component, 0 when there is none.\<close>

primrec max_len :: "nat list list \<Rightarrow> nat" where
  "max_len [] = 0"
| "max_len (c # cs) = max (length c) (max_len cs)"

text \<open>
  The states of a run: the state after construction, and every state that one pass of
  the loop of \<^verbatim>\<open>step\<close> or one call of \<^verbatim>\<open>update\<close> makes of such a state.
\<close>

inductive reachable :: "ButtonModel \<Rightarrow> bool" where
  constructed: "construction p g = Inr m \<Longrightarrow> reachable m"
| tied: "reachable m \<Longrightarrow> tie m = Inr m' \<Longrightarrow> reachable m'"
| updated: "reachable m \<Longrightarrow> update m = Inr m' \<Longrightarrow> reachable m'"

text \<open>
  What construction establishes and every operation keeps: there are \<open>n\<close> agents and
  \<open>n\<close> different nodes, the agents sit on different nodes of the graph, and every
  edge joins two different nodes of the graph.
\<close>

definition wf_model :: "ButtonModel \<Rightarrow> bool" where
  "wf_model m \<longleftrightarrow>
     length (agents m) = nat (p_n (params m)) \<and>
     distinct (map node (agents m)) \<and>
     node ` set (agents m) \<subseteq> set (nodes (graph (buttons m))) \<and>
     length (nodes (graph (buttons m))) = nat (p_n (params m)) \<and>
     distinct (nodes (graph (buttons m))) \<and>
     (\<forall>e \<in> set (edges (graph (buttons m))).
        fst e \<noteq> snd e \<and>
        fst e \<in> set (nodes (graph (buttons m))) \<and> snd e \<in> set (nodes (graph (buttons m))))"

text \<open>The largest cluster of the current graph, as a number of nodes.\<close>

definition largest :: "ButtonModel \<Rightarrow> nat" where
  "largest m = max_len (connected_components (graph (buttons m)))"

text \<open>
  What holds of the recorded series in every state of a run: both series have the same
  length and are sorted, nothing is recorded unless \<open>n\<close> is positive, and no recorded
  value exceeds the value that the current state would record.
\<close>

definition log_inv :: "ButtonModel \<Rightarrow> bool" where
  "log_inv m \<longleftrightarrow>
     length (series ''threads_to_button'' m) = length (series ''max_cluster_size'' m) \<and>
     sorted (series ''threads_to_button'' m) \<and>
     sorted (series ''max_cluster_size'' m) \<and>
     (series ''max_cluster_size'' m = [] \<or> 1 \<le> p_n (params m)) \<and>
     (\<forall>x \<in> set (series ''threads_to_button'' m).
        x \<le> of_int (threads m) / of_int (p_n (params m))) \<and>
     (\<forall>x \<in> set (series ''max_cluster_size'' m).
        1 / of_int (p_n (params m)) \<le> x \<and> x \<le> of_nat (largest m) / of_int (p_n (params m)))"

text \<open>
  Two states that differ at most in the raw numbers of their generators at the positions
  from \<open>K\<close> on, and in the numbers already consumed.
\<close>

definition same_upto :: "nat \<Rightarrow> ButtonModel \<Rightarrow> ButtonModel \<Rightarrow> bool" where
  "same_upto K m1 m2 \<longleftrightarrow>
     params m1 = params m2 \<and> buttons m1 = buttons m2 \<and> agents m1 = agents m2 \<and>
     threads m1 = threads m2 \<and> log_vars m1 = log_vars m2 \<and>
     drawn (rng m1) = drawn (rng m2) \<and>
     (\<forall>k. drawn (rng m1) \<le> k \<and> k < K \<longrightarrow> raw (rng m1) k = raw (rng m2) k)"

section \<open>Binary64 arithmetic\<close>

lemma ilog2_bounds:
  assumes "0 < x"
  shows "2 powi ilog2 x \<le> x" and "x < 2 powi (ilog2 x + 1)"
proof -
  obtain p q where pq: "quotient_of x = (p, q)" by (cases "quotient_of x")
  then have q: "0 < q" and x: "x = of_int p / of_int q"
    by (rule quotient_of_denom_pos, rule quotient_of_div)
  have p: "0 < p" using assms q unfolding x by (simp add: zero_less_divide_iff)
  define c where "c = bitlen p - bitlen q"
  have bp: "1 \<le> bitlen p" and bq: "1 \<le> bitlen q"
    using p q by (simp_all add: bitlen_alt_def)
  have P: "(2::rat) powi (bitlen p - 1) \<le> of_int p" "(of_int p :: rat) < 2 powi bitlen p"
    and Q: "(2::rat) powi (bitlen q - 1) \<le> of_int q" "(of_int q :: rat) < 2 powi bitlen q"
  proof -
    have *: "(2::rat) powi (bitlen k - 1) \<le> of_int k \<and> (of_int k :: rat) < 2 powi bitlen k"
      if "0 < k" for k
    proof -
      have b: "1 \<le> bitlen k" using that by (simp add: bitlen_alt_def)
      from bitlen_bounds [OF that]
      have "of_int (2 ^ nat (bitlen k - 1)) \<le> (of_int k :: rat)"
        and "(of_int k :: rat) < of_int (2 ^ nat (bitlen k))"
        by (simp_all only: of_int_le_iff of_int_less_iff)
      then show ?thesis using b by (simp add: power_int_def)
    qed
    show "(2::rat) powi (bitlen p - 1) \<le> of_int p" "(of_int p :: rat) < 2 powi bitlen p"
      using * [OF p] by simp_all
    show "(2::rat) powi (bitlen q - 1) \<le> of_int q" "(of_int q :: rat) < 2 powi bitlen q"
      using * [OF q] by simp_all
  qed
  have qpos: "(0::rat) < of_int q" using q by simp
  have low: "(2::rat) powi (c - 1) \<le> x"
  proof -
    have e: "c - 1 = (bitlen p - 1) - bitlen q" by (simp add: c_def)
    have "(2::rat) powi (c - 1) = 2 powi (bitlen p - 1) / 2 powi bitlen q"
      unfolding e by (rule power_int_diff) simp
    also have "\<dots> \<le> of_int p / 2 powi bitlen q"
      using P(1) by (simp add: divide_right_mono)
    also have "\<dots> \<le> of_int p / of_int q"
      by (rule frac_le) (use Q(2) p qpos in simp_all)
    finally show ?thesis unfolding x .
  qed
  have high: "x < 2 powi (c + 1)"
  proof -
    have "x < 2 powi bitlen p / of_int q"
      unfolding x using P(2) qpos by (simp add: divide_strict_right_mono)
    also have "\<dots> \<le> 2 powi bitlen p / 2 powi (bitlen q - 1)"
      by (rule frac_le) (use Q(1) in simp_all)
    also have "\<dots> = 2 powi (c + 1)"
    proof -
      have e: "c + 1 = bitlen p - (bitlen q - 1)" by (simp add: c_def)
      have "(2::rat) powi (bitlen p - (bitlen q - 1)) = 2 powi bitlen p / 2 powi (bitlen q - 1)"
        by (rule power_int_diff) simp
      then show ?thesis unfolding e by simp
    qed
    finally show ?thesis .
  qed
  have il: "ilog2 x = (if 2 powi c \<le> x then c else c - 1)"
    by (simp add: ilog2_def pq c_def)
  show "2 powi ilog2 x \<le> x" using low by (simp add: il)
  show "x < 2 powi (ilog2 x + 1)" using high by (auto simp: il)
qed

lemma ilog2_less:
  assumes "0 < x" and "x < 2 powi k"
  shows "ilog2 x < k"
proof (rule ccontr)
  assume "\<not> ilog2 x < k"
  then have "(2::rat) powi k \<le> 2 powi ilog2 x"
    by (intro power_int_increasing) simp_all
  with ilog2_bounds(1) [OF assms(1)] assms(2) show False by simp
qed

lemma ilog2_ge:
  assumes "2 powi k \<le> x"
  shows "k \<le> ilog2 x"
proof (rule ccontr)
  have "(0::rat) < 2 powi k" by simp
  then have x: "0 < x" using assms by (rule less_le_trans)
  assume "\<not> k \<le> ilog2 x"
  then have "(2::rat) powi (ilog2 x + 1) \<le> 2 powi k"
    by (intro power_int_increasing) simp_all
  with ilog2_bounds(2) [OF x] assms show False by simp
qed

lemma to_float_nonzero:
  assumes "x \<noteq> 0" and "e = max (ilog2 \<bar>x\<bar> - 52) (- 1074)"
    and "m = round_even (x / 2 powi e)"
  shows "to_float x =
    (if 971 < e \<or> e = 971 \<and> 2 ^ 53 \<le> \<bar>m\<bar>
     then (if 0 < x then PosInf else NegInf)
     else Finite (of_int m * 2 powi e))"
  using assms(1) unfolding assms(2,3) to_float_def Let_def by (simp only: if_False)

lemma to_float_finite:
  assumes "\<bar>x\<bar> < 2 ^ 1023"
  shows "\<exists>y. to_float x = Finite y"
proof (cases "x = 0")
  case True
  then show ?thesis by (simp add: to_float_def)
next
  case False
  define e where "e = max (ilog2 \<bar>x\<bar> - 52) (- 1074)"
  define m where "m = round_even (x / 2 powi e)"
  have "0 < \<bar>x\<bar>" using False by simp
  moreover have "\<bar>x\<bar> < 2 powi 1023" using assms by simp
  ultimately have "ilog2 \<bar>x\<bar> < 1023" by (rule ilog2_less)
  then have "e \<le> 970" by (simp add: e_def)
  then have "\<not> (971 < e \<or> e = 971 \<and> 2 ^ 53 \<le> \<bar>m\<bar>)" by linarith
  then have "to_float x = Finite (of_int m * 2 powi e)"
    unfolding to_float_nonzero [OF False e_def m_def] by (rule if_not_P)
  then show ?thesis ..
qed

lemma to_float_overflow:
  assumes "2 ^ 1024 \<le> \<bar>x\<bar>"
  shows "to_float x = (if 0 < x then PosInf else NegInf)"
proof -
  define e where "e = max (ilog2 \<bar>x\<bar> - 52) (- 1074)"
  define m where "m = round_even (x / 2 powi e)"
  have "(2::rat) powi 1024 \<le> \<bar>x\<bar>" using assms by simp
  then have "1024 \<le> ilog2 \<bar>x\<bar>" by (rule ilog2_ge)
  then have "971 < e" by (simp add: e_def)
  then have c: "971 < e \<or> e = 971 \<and> 2 ^ 53 \<le> \<bar>m\<bar>" ..
  have "(0::rat) < 2 ^ 1024" by simp
  then have "0 < \<bar>x\<bar>" using assms by (rule less_le_trans)
  then have "x \<noteq> 0" by simp
  from to_float_nonzero [OF this e_def m_def] show ?thesis
    using c by (simp only: if_True)
qed

lemma round_even_of_int: "round_even (of_int k) = k"
  by (simp add: round_even_def)

lemma to_float_of_int:
  assumes "\<bar>k\<bar> < 2 ^ 53"
  shows "to_float (of_int k) = Finite (of_int k)"
proof (cases "k = 0")
  case True
  then show ?thesis by (simp add: to_float_def)
next
  case False
  define l where "l = ilog2 \<bar>of_int k\<bar>"
  have "1 \<le> \<bar>k\<bar>" using False by simp
  then have "(1::rat) \<le> of_int \<bar>k\<bar>"
    by (simp only: of_int_1_le_iff)
  then have "(2::rat) powi 0 \<le> \<bar>of_int k\<bar>" by simp
  then have l0: "0 \<le> l" unfolding l_def by (rule ilog2_ge)
  have "(of_int \<bar>k\<bar> :: rat) < of_int (2 ^ 53)"
    using assms by (simp only: of_int_less_iff)
  then have "\<bar>of_int k :: rat\<bar> < 2 powi 53" by simp
  moreover have "(0::rat) < \<bar>of_int k\<bar>" using False by simp
  ultimately have l53: "l < 53" unfolding l_def by (intro ilog2_less)
  define j where "j = nat (52 - l)"
  define e where "e = max (ilog2 \<bar>of_int k\<bar> - 52) (- 1074)"
  define m where "m = round_even (of_int k / 2 powi e)"
  have e: "e = - int j" using l0 l53 by (simp add: e_def j_def l_def [symmetric])
  have p: "(2::rat) powi (- int j) = 1 / 2 ^ j"
    by (simp add: power_int_minus divide_simps)
  have "(of_int k :: rat) / 2 powi e = of_int (k * 2 ^ j)"
    unfolding e p by simp
  then have r: "m = k * 2 ^ j"
    unfolding m_def by (simp only: round_even_of_int)
  have v: "(of_int m :: rat) * 2 powi e = of_int k"
    unfolding r e p by simp
  have "e \<le> 0" using e by simp
  then have c: "\<not> (971 < e \<or> e = 971 \<and> 2 ^ 53 \<le> \<bar>m\<bar>)" by linarith
  have "(of_int k :: rat) \<noteq> 0" using False by simp
  from to_float_nonzero [OF this e_def m_def]
  have "to_float (of_int k) = Finite (of_int m * 2 powi e)"
    using c by (simp only: if_False)
  then show ?thesis unfolding v .
qed

lemma float_of_int_exact: "\<bar>k\<bar> < 2 ^ 53 \<Longrightarrow> float_of_int k = Inr (of_int k)"
  by (simp add: float_of_int_def to_float_of_int)

lemma round_even_near: "\<bar>of_int (round_even x) - x\<bar> \<le> 1 / 2"
proof -
  have "0 \<le> x - of_int \<lfloor>x\<rfloor>" and "x - of_int \<lfloor>x\<rfloor> < 1"
    by linarith+
  then show ?thesis
    by (auto simp: round_even_def Let_def abs_le_iff)
qed

lemma to_float_near:
  assumes "to_float x = Finite y" and "x \<noteq> 0"
  shows "\<bar>y - x\<bar> \<le> 2 powi (max (ilog2 \<bar>x\<bar> - 52) (- 1074)) / 2"
proof -
  define e where "e = max (ilog2 \<bar>x\<bar> - 52) (- 1074)"
  define m where "m = round_even (x / 2 powi e)"
  have pos: "(0::rat) < 2 powi e" by simp
  from assms(1) have y: "y = of_int m * 2 powi e"
    unfolding to_float_nonzero [OF assms(2) e_def m_def] by (simp split: if_splits)
  have "y - x = (of_int m - x / 2 powi e) * 2 powi e"
    using pos by (simp add: y field_simps)
  then have "\<bar>y - x\<bar> = \<bar>of_int m - x / 2 powi e\<bar> * 2 powi e"
    using pos by (simp add: abs_mult)
  also have "\<dots> \<le> 1 / 2 * 2 powi e"
    unfolding m_def using pos by (intro mult_right_mono round_even_near) simp
  finally show ?thesis by (simp add: e_def)
qed

lemma float_mul_finite:
  assumes "\<bar>a * b\<bar> < 2 ^ 1023"
  shows "\<exists>x. float_mul a (Finite b) = Finite x"
  using to_float_finite [OF assms] by simp

lemma float_mul_overflow:
  assumes "2 ^ 1024 \<le> \<bar>a * b\<bar>"
  shows "float_mul a (Finite b) = (if 0 < a * b then PosInf else NegInf)"
  using to_float_overflow [OF assms] by simp

section \<open>Properties of the components\<close>

lemma max_len_ge: "c \<in> set cs \<Longrightarrow> length c \<le> max_len cs"
  by (induction cs) auto

lemma max_len_le: "(\<And>c. c \<in> set cs \<Longrightarrow> length c \<le> k) \<Longrightarrow> max_len cs \<le> k"
  by (induction cs) auto

lemma max_len_le_sum: "max_len cs \<le> sum_list (map length cs)"
  by (induction cs) auto

lemma max_len_pos: "cs \<noteq> [] \<Longrightarrow> [] \<notin> set cs \<Longrightarrow> 1 \<le> max_len cs"
proof -
  assume "cs \<noteq> []" and ne: "[] \<notin> set cs"
  then obtain c where c: "c \<in> set cs" by (cases cs) auto
  with ne have "1 \<le> length c" by (cases c) auto
  with max_len_ge [OF c] show ?thesis by simp
qed

lemma fold_max_len:
  "0 \<le> x \<Longrightarrow> fold max (map (\<lambda>g. int (length g)) cs) x = max x (int (max_len cs))"
  by (induction cs arbitrary: x) (auto simp: max_def)

lemma py_max_lengths:
  "py_max (map (\<lambda>g. int (length g)) cs) = (if cs = [] then Inl ValueError else Inr (int (max_len cs)))"
  by (cases cs) (auto simp: py_max_def fold_max_len max_def)

lemma sum_length_split:
  "sum_list (map length (filter P cs)) + sum_list (map length (filter (\<lambda>c. \<not> P c) cs))
     = sum_list (map length cs)"
  by (induction cs) auto

lemma join_clusters_sum: "sum_list (map length (join_clusters e cs)) = sum_list (map length cs)"
proof (cases "filter (touches e) cs")
  case Nil
  then show ?thesis by (simp add: join_clusters_def)
next
  case (Cons t ts)
  have "sum_list (map length (join_clusters e cs))
      = length (concat (filter (touches e) cs)) + sum_list (map length (filter (\<lambda>c. \<not> touches e c) cs))"
    using Cons by (simp add: join_clusters_def)
  also have "\<dots> = sum_list (map length cs)"
    using sum_length_split [of "touches e" cs] by (simp add: length_concat)
  finally show ?thesis .
qed

lemma join_clusters_no_empty: "[] \<notin> set cs \<Longrightarrow> [] \<notin> set (join_clusters e cs)"
proof (cases "filter (touches e) cs")
  case Nil
  assume "[] \<notin> set cs"
  with Nil show ?thesis by (simp add: join_clusters_def)
next
  case (Cons t ts)
  assume ne: "[] \<notin> set cs"
  have "t \<in> set (filter (touches e) cs)" using Cons by simp
  then have "t \<in> set cs" by simp
  with ne have "t \<noteq> []" by auto
  with ne Cons show ?thesis by (auto simp: join_clusters_def)
qed

lemma join_clusters_Nil: "join_clusters e cs = [] \<longleftrightarrow> cs = []"
  by (auto simp: join_clusters_def split: list.splits)

lemma concat_covers: "c \<in> set ts \<Longrightarrow> set c \<subseteq> set (concat ts) \<and> length c \<le> length (concat ts)"
  by (induction ts) auto

lemma join_clusters_grows:
  assumes "c \<in> set cs"
  shows "\<exists>d \<in> set (join_clusters e cs). set c \<subseteq> set d \<and> length c \<le> length d"
proof (cases "touches e c")
  case True
  then have mem: "c \<in> set (filter (touches e) cs)" using assms by simp
  then obtain t ts where ts: "filter (touches e) cs = t # ts"
    by (cases "filter (touches e) cs") auto
  have "set c \<subseteq> set (concat (t # ts)) \<and> length c \<le> length (concat (t # ts))"
    using mem unfolding ts by (rule concat_covers)
  moreover have "concat (t # ts) \<in> set (join_clusters e cs)"
    using ts by (simp add: join_clusters_def)
  ultimately show ?thesis by blast
next
  case False
  then have "c \<in> set (join_clusters e cs)"
    using assms by (auto simp: join_clusters_def split: list.splits)
  then show ?thesis by blast
qed

lemma join_clusters_max_len: "max_len cs \<le> max_len (join_clusters e cs)"
proof (rule max_len_le)
  fix c assume "c \<in> set cs"
  then obtain d where "d \<in> set (join_clusters e cs)" "length c \<le> length d"
    using join_clusters_grows by blast
  then show "length c \<le> max_len (join_clusters e cs)"
    using max_len_ge [of d "join_clusters e cs"] by linarith
qed

lemma singletons_sum: "sum_list (map length (map (\<lambda>v. [v]) vs)) = length vs"
  by (induction vs) auto

lemma clusters_from_sum: "sum_list (map length (clusters_from vs es)) = length vs"
  by (induction es) (simp_all add: join_clusters_sum singletons_sum del: map_map)

lemma clusters_from_no_empty: "[] \<notin> set (clusters_from vs es)"
  by (induction es) (auto simp: join_clusters_no_empty)

lemma clusters_from_Nil: "clusters_from vs es = [] \<longleftrightarrow> vs = []"
  by (induction es) (simp_all add: join_clusters_Nil)

lemma max_len_clusters_le: "max_len (clusters_from vs es) \<le> length vs"
  using max_len_le_sum [of "clusters_from vs es"] by (simp add: clusters_from_sum)

lemma max_len_clusters_ge: "vs \<noteq> [] \<Longrightarrow> 1 \<le> max_len (clusters_from vs es)"
  by (rule max_len_pos) (simp_all add: clusters_from_Nil clusters_from_no_empty)

section \<open>Construction\<close>

lemma add_agents_upt:
  "nodes (graph net) = [0..<k] \<Longrightarrow>
   nodes (graph (add_agents net [k..<k + j])) = [0..<k + j] \<and>
   edges (graph (add_agents net [k..<k + j])) = edges (graph net) \<and>
   positions (add_agents net [k..<k + j])
     = (\<lambda>a. if k \<le> a \<and> a < k + j then Some a else positions net a)"
proof (induction j arbitrary: net k)
  case 0
  then show ?case by (auto simp: fun_eq_iff)
next
  case (Suc j)
  let ?net = "\<lparr>graph = add_node k (graph net), positions = (positions net)(k \<mapsto> k)\<rparr>"
  have nodes': "nodes (graph ?net) = [0..<Suc k]"
    using Suc.prems by (simp add: add_node_def)
  have "[k..<k + Suc j] = k # [Suc k..<Suc k + j]"
    using upt_rec [of k "k + Suc j"] by simp
  then have unfold: "add_agents net [k..<k + Suc j] = add_agents ?net [Suc k..<Suc k + j]"
    using Suc.prems by (simp add: Let_def)
  have "edges (graph ?net) = edges (graph net)"
    by (simp add: add_node_def)
  moreover have "(\<lambda>a. if Suc k \<le> a \<and> a < Suc k + j then Some a else positions ?net a)
      = (\<lambda>a. if k \<le> a \<and> a < k + Suc j then Some a else positions net a)"
    by (auto simp: fun_eq_iff)
  ultimately show ?case
    using Suc.IH [OF nodes'] unfolding unfold by simp
qed

lemma add_agents_Network:
  "add_agents Network (AgentList k) =
     \<lparr>graph = \<lparr>nodes = [0..<nat k], edges = []\<rparr>,
      positions = (\<lambda>a. if a < nat k then Some a else None)\<rparr>"
proof -
  have "nodes (graph Network) = [0..<0]"
    by (simp add: Network_def empty_graph_def)
  from add_agents_upt [OF this, of "nat k"]
  have "nodes (graph (add_agents Network (AgentList k))) = [0..<nat k]"
    and "edges (graph (add_agents Network (AgentList k))) = edges (graph Network)"
    and "positions (add_agents Network (AgentList k))
       = (\<lambda>a. if a < nat k then Some a else positions Network a)"
    by (simp_all add: AgentList_def)
  moreover have "edges (graph Network) = []" and "positions Network a = None" for a
    by (simp_all add: Network_def empty_graph_def)
  ultimately have "nodes (graph (add_agents Network (AgentList k))) = [0..<nat k]"
    and "edges (graph (add_agents Network (AgentList k))) = []"
    and "positions (add_agents Network (AgentList k))
       = (\<lambda>a. if a < nat k then Some a else None)"
    by (simp_all cong: if_cong)
  then show ?thesis
    by (intro network.equality graph.equality) simp_all
qed

lemma assign_nodes_upt:
  "(\<And>a. a \<in> set as \<Longrightarrow> positions net a = Some a) \<Longrightarrow>
   assign_nodes net as = Inr (map (\<lambda>a. \<lparr>ident = a, node = a\<rparr>) as)"
  by (induction as) auto

lemma setup_model_eq:
  "setup_model m =
     Inr (m\<lparr>buttons := \<lparr>graph = \<lparr>nodes = [0..<nat (p_n (params m))], edges = []\<rparr>,
                         positions = (\<lambda>a. if a < nat (p_n (params m)) then Some a else None)\<rparr>,
            agents := map (\<lambda>a. \<lparr>ident = a, node = a\<rparr>) [0..<nat (p_n (params m))],
            threads := 0\<rparr>)"
proof -
  let ?ids = "AgentList (p_n (params m))"
  let ?net = "add_agents Network ?ids"
  have pos: "positions ?net a = Some a" if "a \<in> set ?ids" for a
    using that unfolding add_agents_Network by (simp add: AgentList_def)
  have "assign_nodes ?net ?ids = Inr (map (\<lambda>a. \<lparr>ident = a, node = a\<rparr>) ?ids)"
    by (rule assign_nodes_upt) (rule pos)
  then have "setup_model m = Inr (m\<lparr>buttons := ?net,
      agents := map (\<lambda>a. \<lparr>ident = a, node = a\<rparr>) ?ids, threads := 0\<rparr>)"
    by (simp add: setup_model_def Let_def)
  then show ?thesis
    unfolding add_agents_Network by (simp add: AgentList_def)
qed

section \<open>The operations one by one\<close>

lemma random2_Inl: "random2 as g = Inl e \<longleftrightarrow> length as < 2 \<and> e = ValueError"
  by (auto simp: random2_def randbelow_def Let_def split: prod.splits)

lemma random2_Inr:
  assumes "random2 as g = Inr ((a, b), g')"
  shows "\<exists>i j. i < length as \<and> j < length as \<and> i \<noteq> j \<and> a = as ! i \<and> b = as ! j"
    and "raw g' = raw g" and "drawn g' = drawn g + 2"
proof -
  have len: "2 \<le> length as"
    using assms by (auto simp: random2_def split: if_splits)
  define i where "i = raw g (drawn g) mod length as"
  define j where "j = raw g (Suc (drawn g)) mod (length as - 1)"
  define j' where "j' = (if j < i then j else Suc j)"
  have res: "a = as ! i" "b = as ! j'" "g' = g\<lparr>drawn := Suc (Suc (drawn g))\<rparr>"
    using assms len by (auto simp: random2_def randbelow_def Let_def i_def j_def j'_def)
  have "0 < length as" and "0 < length as - 1" using len by linarith+
  then have "i < length as" and "j < length as - 1"
    unfolding i_def j_def by simp_all
  moreover from \<open>j < length as - 1\<close>
  have "j' < length as" "i \<noteq> j'" by (auto simp: j'_def)
  ultimately show "\<exists>i j. i < length as \<and> j < length as \<and> i \<noteq> j \<and> a = as ! i \<and> b = as ! j"
    using res by blast
  show "raw g' = raw g" and "drawn g' = drawn g + 2"
    using res by simp_all
qed

lemma random2_distinct:
  assumes "random2 as g = Inr ((a, b), g')" and "distinct (map node as)"
  shows "a \<in> set as" and "b \<in> set as" and "node a \<noteq> node b"
proof -
  from random2_Inr(1) [OF assms(1)] obtain i j
    where ij: "i < length as" "j < length as" "i \<noteq> j" "a = as ! i" "b = as ! j"
    by blast
  show "a \<in> set as" and "b \<in> set as" using ij by simp_all
  have "map node as ! i \<noteq> map node as ! j"
    using nth_eq_iff_index_eq [OF assms(2), of i j] ij by simp
  then show "node a \<noteq> node b" using ij by simp
qed

lemma add_node_member: "v \<in> set (nodes G) \<Longrightarrow> add_node v G = G"
  by (simp add: add_node_def)

lemma add_edge_members:
  "u \<in> set (nodes G) \<Longrightarrow> v \<in> set (nodes G) \<Longrightarrow>
   add_edge u v G = (if has_edge u v G then G else G\<lparr>edges := (u, v) # edges G\<rparr>)"
  by (simp add: add_edge_def add_node_member)

lemma add_edge_max_len:
  assumes "u \<in> set (nodes G)" and "v \<in> set (nodes G)"
  shows "max_len (connected_components G) \<le> max_len (connected_components (add_edge u v G))"
  using assms join_clusters_max_len [of "clusters_from (nodes G) (edges G)" "(u, v)"]
  by (simp add: add_edge_members connected_components_def)

lemma tie_Inl: "tie m = Inl e \<longleftrightarrow> length (agents m) < 2 \<and> e = ValueError"
proof -
  have "tie m = Inl e \<longleftrightarrow> random2 (agents m) (rng m) = Inl e"
    by (auto simp: tie_def split: sum.splits)
  then show ?thesis by (simp add: random2_Inl)
qed

lemma tie_Inr:
  assumes "tie m = Inr m'"
  obtains a b g' where "random2 (agents m) (rng m) = Inr ((a, b), g')"
    and "m' = m\<lparr>buttons := (buttons m)\<lparr>graph := add_edge (node a) (node b) (graph (buttons m))\<rparr>,
                 threads := threads m + 1, rng := g'\<rparr>"
  using assms by (auto simp: tie_def split: sum.splits)

lemma tie_fields:
  assumes "tie m = Inr m'"
  shows "params m' = params m" and "agents m' = agents m" and "threads m' = threads m + 1"
    and "log_vars m' = log_vars m" and "raw (rng m') = raw (rng m)"
    and "drawn (rng m') = drawn (rng m) + 2"
  using assms by (auto elim!: tie_Inr dest: random2_Inr(2,3))

lemma tie_wf:
  assumes "wf_model m" and "tie m = Inr m'"
  shows "wf_model m'"
proof -
  from assms(2) obtain a b g' where r: "random2 (agents m) (rng m) = Inr ((a, b), g')"
    and m': "m' = m\<lparr>buttons := (buttons m)\<lparr>graph := add_edge (node a) (node b) (graph (buttons m))\<rparr>,
                 threads := threads m + 1, rng := g'\<rparr>"
    by (rule tie_Inr)
  have d: "distinct (map node (agents m))" using assms(1) by (simp add: wf_model_def)
  from random2_distinct [OF r d]
  have ab: "a \<in> set (agents m)" "b \<in> set (agents m)" "node a \<noteq> node b" .
  then have "node a \<in> set (nodes (graph (buttons m)))" "node b \<in> set (nodes (graph (buttons m)))"
    using assms(1) by (auto simp: wf_model_def)
  then show ?thesis
    using assms(1) ab(3) unfolding m' by (auto simp: wf_model_def add_edge_members)
qed

lemma tie_largest:
  assumes "wf_model m" and "tie m = Inr m'"
  shows "largest m \<le> largest m'"
proof -
  from assms(2) obtain a b g' where r: "random2 (agents m) (rng m) = Inr ((a, b), g')"
    and m': "m' = m\<lparr>buttons := (buttons m)\<lparr>graph := add_edge (node a) (node b) (graph (buttons m))\<rparr>,
                 threads := threads m + 1, rng := g'\<rparr>"
    by (rule tie_Inr)
  have d: "distinct (map node (agents m))" using assms(1) by (simp add: wf_model_def)
  from random2_distinct [OF r d]
  have "node a \<in> set (nodes (graph (buttons m)))" "node b \<in> set (nodes (graph (buttons m)))"
    using assms(1) by (auto simp: wf_model_def)
  then show ?thesis
    unfolding m' largest_def by (simp add: add_edge_max_len)
qed

lemma record_var_fields:
  "params (record_var key x m) = params m"
  "buttons (record_var key x m) = buttons m"
  "agents (record_var key x m) = agents m"
  "threads (record_var key x m) = threads m"
  "rng (record_var key x m) = rng m"
  by (simp_all add: record_var_def)

lemma series_record_var:
  "series key (record_var key' x m) = (if key = key' then series key m @ [x] else series key m)"
  by (simp add: series_def record_var_def)

lemma largest_record_var: "largest (record_var key x m) = largest m"
  by (simp add: largest_def record_var_fields)

lemma update_eq:
  "update m =
     (if connected_components (graph (buttons m)) = [] then Inl ValueError
      else if p_n (params m) = 0 then Inl ZeroDivisionError
      else Inr (record_var ''threads_to_button'' (of_int (threads m) / of_int (p_n (params m)))
             (record_var ''max_cluster_size'' (of_nat (largest m) / of_int (p_n (params m))) m)))"
  by (simp add: update_def Let_def py_max_lengths truediv_def record_var_fields largest_def)

lemma update_Inr:
  assumes "update m = Inr m'"
  shows "connected_components (graph (buttons m)) \<noteq> []" and "p_n (params m) \<noteq> 0"
    and "m' = record_var ''threads_to_button'' (of_int (threads m) / of_int (p_n (params m)))
             (record_var ''max_cluster_size'' (of_nat (largest m) / of_int (p_n (params m))) m)"
  using assms unfolding update_eq by (simp_all split: if_splits)

lemma update_fields:
  assumes "update m = Inr m'"
  shows "params m' = params m" and "buttons m' = buttons m" and "agents m' = agents m"
    and "threads m' = threads m" and "rng m' = rng m" and "largest m' = largest m"
  unfolding update_Inr(3) [OF assms] by (simp_all add: record_var_fields largest_record_var)

lemma update_series:
  assumes "update m = Inr m'"
  shows "series ''max_cluster_size'' m'
       = series ''max_cluster_size'' m @ [of_nat (largest m) / of_int (p_n (params m))]"
    and "series ''threads_to_button'' m'
       = series ''threads_to_button'' m @ [of_int (threads m) / of_int (p_n (params m))]"
  unfolding update_Inr(3) [OF assms] by (simp_all add: series_record_var)

lemma update_wf: "wf_model m \<Longrightarrow> update m = Inr m' \<Longrightarrow> wf_model m'"
  by (simp add: wf_model_def update_fields)

lemma wf_components_Nil:
  "wf_model m \<Longrightarrow> connected_components (graph (buttons m)) = [] \<longleftrightarrow> p_n (params m) \<le> 0"
  by (auto simp: wf_model_def connected_components_def clusters_from_Nil)

lemma wf_largest_le: "wf_model m \<Longrightarrow> largest m \<le> nat (p_n (params m))"
  using max_len_clusters_le [of "nodes (graph (buttons m))" "edges (graph (buttons m))"]
  by (simp add: wf_model_def largest_def connected_components_def)

lemma wf_largest_ge:
  assumes "wf_model m" and "1 \<le> p_n (params m)"
  shows "1 \<le> largest m"
proof -
  have "length (nodes (graph (buttons m))) = nat (p_n (params m))"
    using assms(1) by (simp add: wf_model_def)
  with assms(2) have "nodes (graph (buttons m)) \<noteq> []" by auto
  then show ?thesis
    unfolding largest_def connected_components_def by (rule max_len_clusters_ge)
qed

lemma update_succeeds:
  "wf_model m \<Longrightarrow> 1 \<le> p_n (params m) \<Longrightarrow> \<exists>m'. update m = Inr m'"
  by (simp add: update_eq wf_components_Nil)

lemma update_npos: "wf_model m \<Longrightarrow> update m = Inr m' \<Longrightarrow> 1 \<le> p_n (params m)"
  using update_Inr(1) [of m m'] by (simp add: wf_components_Nil)

lemma tie_log_inv:
  assumes "wf_model m" and "log_inv m" and "tie m = Inr m'"
  shows "log_inv m'"
proof -
  have s: "series key m' = series key m" for key
    using tie_fields(4) [OF assms(3)] by (simp add: series_def)
  have p: "params m' = params m" and t: "threads m' = threads m + 1"
    using tie_fields [OF assms(3)] by simp_all
  have l: "largest m \<le> largest m'" using assms(1,3) by (rule tie_largest)
  show ?thesis
  proof (cases "series ''max_cluster_size'' m = []")
    case True
    then show ?thesis using assms(2) by (simp add: log_inv_def s)
  next
    case False
    then have n: "1 \<le> p_n (params m)" using assms(2) by (simp add: log_inv_def)
    then have "(of_int (threads m) :: rat) / of_int (p_n (params m))
        \<le> of_int (threads m + 1) / of_int (p_n (params m))"
      by (simp add: divide_right_mono)
    moreover have "(of_nat (largest m) :: rat) / of_int (p_n (params m))
        \<le> of_nat (largest m') / of_int (p_n (params m))"
      using n l by (simp add: divide_right_mono)
    ultimately show ?thesis
      using assms(2) unfolding log_inv_def s p t by (auto intro: order_trans)
  qed
qed

lemma update_log_inv:
  assumes "wf_model m" and "log_inv m" and "update m = Inr m'"
  shows "log_inv m'"
proof -
  have n: "1 \<le> p_n (params m)" using assms(1,3) by (rule update_npos)
  have "1 \<le> largest m" using assms(1) n by (rule wf_largest_ge)
  then have "(1 :: rat) / of_int (p_n (params m)) \<le> of_nat (largest m) / of_int (p_n (params m))"
    using n by (simp add: divide_right_mono)
  then show ?thesis
    using assms(2) n unfolding log_inv_def update_series [OF assms(3)] update_fields [OF assms(3)]
    by (auto simp: sorted_append)
qed

section \<open>Loops, steps and runs\<close>

lemma for_range_invariant:
  assumes "\<And>m m'. I m \<Longrightarrow> body m = Inr m' \<Longrightarrow> I m'"
    and "I m" and "for_range k body m = Inr m'"
  shows "I m'"
  using assms(2,3)
proof (induction k arbitrary: m)
  case 0
  then show ?case by simp
next
  case (Suc k)
  from Suc.prems(2) obtain m1 where b: "body m = Inr m1" and r: "for_range k body m1 = Inr m'"
    by (auto split: sum.splits)
  from assms(1) [OF Suc.prems(1) b] r show ?case by (rule Suc.IH)
qed

lemma for_range_succeeds:
  assumes "\<And>m m'. I m \<Longrightarrow> body m = Inr m' \<Longrightarrow> I m'"
    and "\<And>m. I m \<Longrightarrow> \<exists>m'. body m = Inr m'"
    and "I m"
  shows "\<exists>m'. for_range k body m = Inr m'"
  using assms(3)
proof (induction k arbitrary: m)
  case 0
  then show ?case by simp
next
  case (Suc k)
  from assms(2) [OF Suc.prems] obtain m1 where b: "body m = Inr m1" by blast
  from Suc.IH [OF assms(1) [OF Suc.prems b]] b show ?case by simp
qed


lemma for_range_tie_fields:
  "for_range k tie m = Inr m' \<Longrightarrow>
   params m' = params m \<and> agents m' = agents m \<and> threads m' = threads m + int k \<and>
   log_vars m' = log_vars m \<and> raw (rng m') = raw (rng m) \<and>
   drawn (rng m') = drawn (rng m) + 2 * k"
proof (induction k arbitrary: m)
  case 0
  then show ?case by simp
next
  case (Suc k)
  from Suc.prems obtain m1 where b: "tie m = Inr m1" and r: "for_range k tie m1 = Inr m'"
    by (auto split: sum.splits)
  from Suc.IH [OF r] tie_fields [OF b] show ?case by simp
qed

lemma step_bound:
  "loop_bound (params m) = Inr k \<Longrightarrow> step m = for_range (nat k) tie m"
  "loop_bound (params m) = Inl e \<Longrightarrow> step m = Inl e"
  by (simp_all add: step_def)

lemma edges_per_step_bound: "loop_bound p = Inr k \<Longrightarrow> edges_per_step p = nat k"
  by (simp add: edges_per_step_def)

lemma step_loop:
  assumes "step m = Inr m'"
  shows "for_range (edges_per_step (params m)) tie m = Inr m'"
    and "\<not> isl (loop_bound (params m))"
  using assms by (auto simp: step_def edges_per_step_def split: sum.splits)

lemma step_fields:
  assumes "step m = Inr m'"
  shows "params m' = params m" and "agents m' = agents m"
    and "threads m' = threads m + int (edges_per_step (params m))"
    and "log_vars m' = log_vars m" and "raw (rng m') = raw (rng m)"
    and "drawn (rng m') = drawn (rng m) + 2 * edges_per_step (params m)"
  using for_range_tie_fields [OF step_loop(1) [OF assms]] by simp_all

lemma wf_log_tie: "wf_model m \<and> log_inv m \<Longrightarrow> tie m = Inr m' \<Longrightarrow> wf_model m' \<and> log_inv m'"
  by (blast intro: tie_wf tie_log_inv)

lemma wf_log_update:
  "wf_model m \<and> log_inv m \<Longrightarrow> update m = Inr m' \<Longrightarrow> wf_model m' \<and> log_inv m'"
  by (blast intro: update_wf update_log_inv)

lemma wf_log_step:
  assumes "wf_model m \<and> log_inv m" and "step m = Inr m'"
  shows "wf_model m' \<and> log_inv m'"
  using wf_log_tie assms(1) step_loop(1) [OF assms(2)] by (rule for_range_invariant)

lemma runStep_Inr:
  assumes "runStep m = Inr m'"
  obtains m1 where "step m = Inr m1" and "update m1 = Inr m'"
  using assms by (auto simp: runStep_def split: sum.splits)

lemma wf_log_runStep:
  assumes "wf_model m \<and> log_inv m" and "runStep m = Inr m'"
  shows "wf_model m' \<and> log_inv m'"
proof -
  from assms(2) obtain m1 where s: "step m = Inr m1" and u: "update m1 = Inr m'"
    by (rule runStep_Inr)
  from wf_log_step [OF assms(1) s] u show ?thesis by (rule wf_log_update)
qed

lemma construct_eq:
  "construction p g =
     Inr \<lparr>params = p,
          buttons = \<lparr>graph = \<lparr>nodes = [0..<nat (p_n p)], edges = []\<rparr>,
                     positions = (\<lambda>a. if a < nat (p_n p) then Some a else None)\<rparr>,
          agents = map (\<lambda>a. \<lparr>ident = a, node = a\<rparr>) [0..<nat (p_n p)],
          threads = 0, log_vars = Map.empty, rng = g\<rparr>"
  by (simp add: construction_def setup_model_eq) (simp add: new_model_def)

lemma construct_fields:
  assumes "construction p g = Inr m"
  shows "params m = p" and "threads m = 0" and "log_vars m = Map.empty" and "rng m = g"
    and "nodes (graph (buttons m)) = [0..<nat (p_n p)]" and "edges (graph (buttons m)) = []"
    and "agents m = map (\<lambda>a. \<lparr>ident = a, node = a\<rparr>) [0..<nat (p_n p)]"
  using assms unfolding construct_eq by auto

lemma construct_wf_log:
  assumes "construction p g = Inr m"
  shows "wf_model m \<and> log_inv m"
proof -
  note f = construct_fields [OF assms]
  have "map node (agents m) = [0..<nat (p_n p)]"
    unfolding f by (simp add: comp_def)
  then have "wf_model m"
    unfolding wf_model_def by (auto simp: f)
  moreover have "log_inv m"
    by (simp add: log_inv_def series_def f)
  ultimately show ?thesis ..
qed

lemma reachable_wf_log: "reachable m \<Longrightarrow> wf_model m \<and> log_inv m"
proof (induction rule: reachable.induct)
  case (constructed p g m)
  then show ?case by (rule construct_wf_log)
next
  case (tied m m')
  then show ?case by (blast intro: tie_wf tie_log_inv)
next
  case (updated m m')
  then show ?case by (blast intro: update_wf update_log_inv)
qed

lemma reachable_for_range_tie: "reachable m \<Longrightarrow> for_range k tie m = Inr m' \<Longrightarrow> reachable m'"
  using reachable.tied by (rule for_range_invariant)

lemma reachable_step: "reachable m \<Longrightarrow> step m = Inr m' \<Longrightarrow> reachable m'"
  by (blast dest: step_loop(1) intro: reachable_for_range_tie)

lemma reachable_runStep: "reachable m \<Longrightarrow> runStep m = Inr m' \<Longrightarrow> reachable m'"
  by (auto elim!: runStep_Inr intro: reachable_step reachable.updated)

lemma simulate_Inr:
  assumes "simulate p g = Inr m"
  obtains m0 where "construction p g = Inr m0" and "for_range (nat (p_steps p)) runStep m0 = Inr m"
  using assms by (auto simp: simulate_def split: sum.splits)

lemma reachable_simulate: "simulate p g = Inr m \<Longrightarrow> reachable m"
proof (erule simulate_Inr)
  fix m0 assume c: "construction p g = Inr m0" and r: "for_range (nat (p_steps p)) runStep m0 = Inr m"
  from c have "reachable m0" by (rule reachable.constructed)
  with reachable_runStep show "reachable m" using r by (rule for_range_invariant)
qed

lemma run_Inr:
  assumes "run p g = Inr ml"
  obtains m where "simulate p g = Inr m" and "ml = MetricsLog m"
  using assms by (auto simp: run_def split: sum.splits)

lemma simulate_params: "simulate p g = Inr m \<Longrightarrow> params m = p"
proof (erule simulate_Inr)
  fix m0 assume c: "construction p g = Inr m0" and r: "for_range (nat (p_steps p)) runStep m0 = Inr m"
  have keep: "params b = p" if "params a = p" and "runStep a = Inr b" for a b
    using that by (auto elim!: runStep_Inr simp: step_fields(1) update_fields(1))
  from keep construct_fields(1) [OF c] r show "params m = p"
    by (rule for_range_invariant)
qed

lemma MetricsLog_maps:
  assumes "log_inv m"
  shows "map fst (MetricsLog m) = series ''threads_to_button'' m"
    and "map snd (MetricsLog m) = series ''max_cluster_size'' m"
  using assms by (simp_all add: MetricsLog_def log_inv_def)

lemma run_facts:
  assumes "run p g = Inr ml"
  obtains m where "simulate p g = Inr m" and "ml = MetricsLog m" and "params m = p"
    and "wf_model m" and "log_inv m"
proof -
  from assms obtain m where s: "simulate p g = Inr m" and ml: "ml = MetricsLog m"
    by (rule run_Inr)
  from s have "reachable m" by (rule reachable_simulate)
  then have "wf_model m" "log_inv m" using reachable_wf_log by blast+
  with s ml simulate_params [OF s] show thesis by (rule that)
qed

lemma run_entry:
  assumes "run p g = Inr ml" and "(r, c) \<in> set ml"
  shows "1 \<le> p_n p" and "1 / of_int (p_n p) \<le> c" and "c \<le> 1"
proof -
  from assms(1) obtain m where ml: "ml = MetricsLog m" and p: "params m = p"
    and wf: "wf_model m" and li: "log_inv m"
    by (rule run_facts)
  have c: "c \<in> set (series ''max_cluster_size'' m)"
    using assms(2) unfolding ml MetricsLog_def by (rule set_zip_rightD)
  then have "series ''max_cluster_size'' m \<noteq> []" by auto
  with li p show n: "1 \<le> p_n p" by (auto simp: log_inv_def)
  from li c p have b: "1 / of_int (p_n p) \<le> c" "c \<le> of_nat (largest m) / of_int (p_n p)"
    by (auto simp: log_inv_def)
  show "1 / of_int (p_n p) \<le> c" by (rule b)
  have "largest m \<le> nat (p_n p)" using wf_largest_le [OF wf] p by simp
  then have "(of_nat (largest m) :: rat) \<le> of_nat (nat (p_n p))"
    by (simp only: of_nat_le_iff)
  moreover have "(of_nat (nat (p_n p)) :: rat) = of_int (p_n p)"
    using n by (simp add: of_nat_nat)
  ultimately have "(of_nat (largest m) :: rat) \<le> of_int (p_n p)"
    by simp
  then have "(of_nat (largest m) :: rat) / of_int (p_n p) \<le> 1"
    using n by (simp add: divide_le_eq_1)
  with b(2) show "c \<le> 1" by simp
qed

lemma sorted_consecutive: "sorted xs \<Longrightarrow> Suc k < length xs \<Longrightarrow> xs ! k \<le> xs ! Suc k"
  by (simp add: sorted_iff_nth_mono)

lemma run_example_3:
  "run \<lparr>p_n = 3, p_speed = Finite (1 / 2), p_steps = 2\<rparr> counting = Inr [(1 / 3, 2 / 3), (2 / 3, 1)]"
  by code_simp

section \<open>Construction and failure\<close>

lemma tie_succeeds:
  assumes "wf_model m" and "2 \<le> p_n (params m)"
  shows "\<exists>m'. tie m = Inr m'"
proof (cases "tie m")
  case (Inl e)
  then have "length (agents m) < 2" by (simp add: tie_Inl)
  moreover have "length (agents m) = nat (p_n (params m))"
    using assms(1) by (simp add: wf_model_def)
  ultimately show ?thesis using assms(2) by simp
next
  case (Inr m')
  then show ?thesis by blast
qed

lemma wf_two_tie:
  "wf_model m \<and> 2 \<le> p_n (params m) \<Longrightarrow> tie m = Inr m' \<Longrightarrow>
   wf_model m' \<and> 2 \<le> p_n (params m')"
  by (auto intro: tie_wf simp: tie_fields(1))

lemma wf_two_step:
  assumes "wf_model m \<and> 2 \<le> p_n (params m)" and "step m = Inr m'"
  shows "wf_model m' \<and> 2 \<le> p_n (params m')"
  using wf_two_tie assms(1) step_loop(1) [OF assms(2)] by (rule for_range_invariant)

lemma step_succeeds:
  assumes "wf_model m" and "2 \<le> p_n (params m)" and "\<not> isl (loop_bound (params m))"
  shows "\<exists>m'. step m = Inr m'"
proof -
  from assms(3) obtain k where "loop_bound (params m) = Inr k"
    by (cases "loop_bound (params m)") auto
  then have s: "step m = for_range (nat k) tie m" by (rule step_bound(1))
  show ?thesis
    unfolding s
  proof (rule for_range_succeeds [where I = "\<lambda>m. wf_model m \<and> 2 \<le> p_n (params m)"])
    show "wf_model m \<and> 2 \<le> p_n (params m)" using assms(1,2) ..
  qed (auto intro: tie_succeeds tie_wf simp: tie_fields(1))
qed

lemma runStep_params: "runStep m = Inr m' \<Longrightarrow> params m' = params m"
  by (auto elim!: runStep_Inr simp: step_fields(1) update_fields(1))

lemma runStep_succeeds:
  assumes "wf_model m" and "2 \<le> p_n (params m)" and "\<not> isl (loop_bound (params m))"
  shows "\<exists>m'. runStep m = Inr m'"
proof -
  from step_succeeds [OF assms] obtain m1 where s: "step m = Inr m1" ..
  from wf_two_step [OF _ s] assms have "wf_model m1" "1 \<le> p_n (params m1)" by auto
  then obtain m' where "update m1 = Inr m'" using update_succeeds by blast
  with s show ?thesis by (simp add: runStep_def)
qed

lemma wf_two_runStep:
  assumes "wf_model m \<and> 2 \<le> p_n (params m)" and "runStep m = Inr m'"
  shows "wf_model m' \<and> 2 \<le> p_n (params m')"
proof -
  from assms(2) obtain m1 where s: "step m = Inr m1" and u: "update m1 = Inr m'"
    by (rule runStep_Inr)
  from wf_two_step [OF assms(1) s] u show ?thesis
    by (auto intro: update_wf simp: update_fields(1))
qed

lemma simulate_succeeds:
  assumes "2 \<le> p_n p" and "\<not> isl (loop_bound p)"
  shows "\<exists>m. simulate p g = Inr m"
proof -
  obtain m0 where c: "construction p g = Inr m0" by (simp add: construct_eq)
  have m0: "wf_model m0 \<and> params m0 = p"
    using construct_wf_log [OF c] construct_fields(1) [OF c] by simp
  have "\<exists>m. for_range (nat (p_steps p)) runStep m0 = Inr m"
  proof (rule for_range_succeeds [where I = "\<lambda>m. wf_model m \<and> params m = p"])
    show "wf_model m0 \<and> params m0 = p" by (rule m0)
    show "wf_model b \<and> params b = p"
      if "wf_model a \<and> params a = p" and "runStep a = Inr b" for a b
      using wf_two_runStep [of a b] runStep_params [of a b] that assms(1) by simp
    show "\<exists>b. runStep a = Inr b" if "wf_model a \<and> params a = p" for a
      using that assms by (blast intro: runStep_succeeds)
  qed
  with c show ?thesis by (simp add: simulate_def)
qed

lemma run_succeeds: "2 \<le> p_n p \<Longrightarrow> \<not> isl (loop_bound p) \<Longrightarrow> \<exists>ml. run p g = Inr ml"
  using simulate_succeeds [of p g] by (auto simp: run_def)

lemma run_fails_at_bound:
  assumes "loop_bound p = Inl e" and "1 \<le> p_steps p"
  shows "run p g = Inl e"
proof -
  obtain m0 where c: "construction p g = Inr m0" by (simp add: construct_eq)
  from assms(2) obtain k where k: "nat (p_steps p) = Suc k"
    by (cases "nat (p_steps p)") auto
  have "step m0 = Inl e"
    using assms(1) construct_fields(1) [OF c] by (simp add: step_bound(2))
  then show ?thesis
    by (simp add: run_def simulate_def c k runStep_def)
qed

section \<open>One entry for each step\<close>

lemma MetricsLog_update:
  assumes "log_inv m" and "update m = Inr m'"
  shows "MetricsLog m' = MetricsLog m @
    [(of_int (threads m) / of_int (p_n (params m)), of_nat (largest m) / of_int (p_n (params m)))]"
  using assms(1) unfolding MetricsLog_def update_series [OF assms(2)]
  by (simp add: log_inv_def)

lemma MetricsLog_step: "step m = Inr m' \<Longrightarrow> MetricsLog m' = MetricsLog m"
  by (simp add: MetricsLog_def series_def step_fields(4))

lemma MetricsLog_runStep:
  assumes "wf_model m \<and> log_inv m" and "runStep m = Inr m'"
  shows "length (MetricsLog m') = Suc (length (MetricsLog m))"
proof -
  from assms(2) obtain m1 where s: "step m = Inr m1" and u: "update m1 = Inr m'"
    by (rule runStep_Inr)
  from wf_log_step [OF assms(1) s] have "log_inv m1" ..
  from MetricsLog_update [OF this u] MetricsLog_step [OF s] show ?thesis by simp
qed

lemma MetricsLog_for_range:
  "wf_model m \<and> log_inv m \<Longrightarrow> for_range k runStep m = Inr m' \<Longrightarrow>
   length (MetricsLog m') = length (MetricsLog m) + k"
proof (induction k arbitrary: m)
  case 0
  then show ?case by simp
next
  case (Suc k)
  from Suc.prems(2) obtain m1 where b: "runStep m = Inr m1" and r: "for_range k runStep m1 = Inr m'"
    by (auto split: sum.splits)
  from Suc.IH [OF wf_log_runStep [OF Suc.prems(1) b] r] MetricsLog_runStep [OF Suc.prems(1) b]
  show ?case by simp
qed

lemma run_length:
  assumes "run p g = Inr ml"
  shows "length ml = nat (p_steps p)"
proof -
  from assms obtain m where s: "simulate p g = Inr m" and ml: "ml = MetricsLog m"
    by (rule run_Inr)
  from s obtain m0 where c: "construction p g = Inr m0"
    and r: "for_range (nat (p_steps p)) runStep m0 = Inr m"
    by (rule simulate_Inr)
  have "MetricsLog m0 = []"
    by (simp add: MetricsLog_def series_def construct_fields(3) [OF c])
  with MetricsLog_for_range [OF construct_wf_log [OF c] r] ml show ?thesis by simp
qed

section \<open>The number of edges of a step\<close>


lemma loop_bound_finite:
  assumes "float_of_int (p_n p) = Inr a" and "p_speed p = Finite b" and "\<bar>a * b\<bar> < 2 ^ 1023"
  shows "\<not> isl (loop_bound p)"
proof -
  from float_mul_finite [OF assms(3)] obtain x where "float_mul a (Finite b) = Finite x" ..
  then show ?thesis by (simp add: loop_bound_def assms(1,2))
qed

lemma runStep_fields:
  assumes "runStep m = Inr m'"
  shows "params m' = params m"
    and "threads m' = threads m + int (edges_per_step (params m))"
    and "series ''threads_to_button'' m'
       = series ''threads_to_button'' m @ [of_int (threads m') / of_int (p_n (params m'))]"
proof -
  from assms obtain m1 where s: "step m = Inr m1" and u: "update m1 = Inr m'"
    by (rule runStep_Inr)
  show "params m' = params m"
    by (simp add: update_fields(1) [OF u] step_fields(1) [OF s])
  show "threads m' = threads m + int (edges_per_step (params m))"
    by (simp add: update_fields(4) [OF u] step_fields(3) [OF s])
  have "series ''threads_to_button'' m1 = series ''threads_to_button'' m"
    by (simp add: series_def step_fields(4) [OF s])
  then show "series ''threads_to_button'' m'
       = series ''threads_to_button'' m @ [of_int (threads m') / of_int (p_n (params m'))]"
    by (simp add: update_series(2) [OF u] update_fields [OF u])
qed




section \<open>Tied pairs\<close>

lemma join_clusters_cover: "\<Union> (set ` set (join_clusters e cs)) = \<Union> (set ` set cs)"
proof (cases "filter (touches e) cs")
  case Nil
  then show ?thesis by (simp add: join_clusters_def)
next
  case (Cons t ts)
  have "\<Union> (set ` set (join_clusters e cs))
      = \<Union> (set ` set (filter (touches e) cs)) \<union> \<Union> (set ` set (filter (\<lambda>c. \<not> touches e c) cs))"
    using Cons by (simp add: join_clusters_def)
  also have "\<dots> = \<Union> (set ` set cs)" by auto
  finally show ?thesis .
qed

lemma clusters_from_cover: "\<Union> (set ` set (clusters_from vs es)) = set vs"
  by (induction es) (simp_all add: join_clusters_cover)

lemma join_clusters_joins:
  assumes "fst e \<in> \<Union> (set ` set cs)" and "snd e \<in> \<Union> (set ` set cs)"
  shows "\<exists>c \<in> set (join_clusters e cs). fst e \<in> set c \<and> snd e \<in> set c"
proof -
  from assms obtain c d where c: "c \<in> set cs" "fst e \<in> set c" and d: "d \<in> set cs" "snd e \<in> set d"
    by auto
  then have m: "c \<in> set (filter (touches e) cs)" "d \<in> set (filter (touches e) cs)"
    by (simp_all add: touches_def)
  then obtain t ts where ts: "filter (touches e) cs = t # ts"
    by (cases "filter (touches e) cs") auto
  have "fst e \<in> set (concat (t # ts))" "snd e \<in> set (concat (t # ts))"
    using m c(2) d(2) unfolding ts by auto
  moreover have "concat (t # ts) \<in> set (join_clusters e cs)"
    using ts by (simp add: join_clusters_def)
  ultimately show ?thesis by blast
qed

lemma clusters_from_edge:
  assumes "(u, v) \<in> set es" and "u \<in> set vs" and "v \<in> set vs"
  shows "\<exists>c \<in> set (clusters_from vs es). u \<in> set c \<and> v \<in> set c"
  using assms(1)
proof (induction es)
  case Nil
  then show ?case by simp
next
  case (Cons e es)
  show ?case
  proof (cases "e = (u, v)")
    case True
    have "fst e \<in> \<Union> (set ` set (clusters_from vs es))" "snd e \<in> \<Union> (set ` set (clusters_from vs es))"
      unfolding clusters_from_cover using True assms(2,3) by simp_all
    from join_clusters_joins [OF this] True show ?thesis by simp
  next
    case False
    with Cons.prems have "(u, v) \<in> set es" by simp
    from Cons.IH [OF this] obtain c where c: "c \<in> set (clusters_from vs es)" "u \<in> set c" "v \<in> set c"
      by blast
    from join_clusters_grows [OF c(1), of e] obtain d
      where "d \<in> set (join_clusters e (clusters_from vs es))" "set c \<subseteq> set d"
      by blast
    with c(2,3) show ?thesis by auto
  qed
qed

lemma tie_has_edge:
  assumes "wf_model m" and "tie m = Inr m'"
    and "random2 (agents m) (rng m) = Inr ((a, b), g')"
  shows "node a \<noteq> node b"
    and "node a \<in> set (nodes (graph (buttons m)))" and "node b \<in> set (nodes (graph (buttons m)))"
    and "nodes (graph (buttons m')) = nodes (graph (buttons m))"
    and "has_edge (node a) (node b) (graph (buttons m'))"
    and "set (edges (graph (buttons m))) \<subseteq> set (edges (graph (buttons m')))"
proof -
  have d: "distinct (map node (agents m))" using assms(1) by (simp add: wf_model_def)
  from random2_distinct [OF assms(3) d]
  have ab: "a \<in> set (agents m)" "b \<in> set (agents m)" "node a \<noteq> node b" .
  show "node a \<noteq> node b" by (rule ab(3))
  show na: "node a \<in> set (nodes (graph (buttons m)))"
    and nb: "node b \<in> set (nodes (graph (buttons m)))"
    using assms(1) ab by (auto simp: wf_model_def)
  have m': "graph (buttons m') = add_edge (node a) (node b) (graph (buttons m))"
    using assms(2,3) by (auto simp: tie_def)
  show "nodes (graph (buttons m')) = nodes (graph (buttons m))"
    and "has_edge (node a) (node b) (graph (buttons m'))"
    and "set (edges (graph (buttons m))) \<subseteq> set (edges (graph (buttons m')))"
    unfolding m' add_edge_members [OF na nb] by (auto simp: has_edge_def)
qed

lemma has_edge_same_cluster:
  assumes "has_edge u v G" and "u \<in> set (nodes G)" and "v \<in> set (nodes G)"
  shows "\<exists>c \<in> set (connected_components G). u \<in> set c \<and> v \<in> set c"
proof -
  from assms(1) have "(u, v) \<in> set (edges G) \<or> (v, u) \<in> set (edges G)"
    by (simp add: has_edge_def)
  then show ?thesis
    unfolding connected_components_def
    using clusters_from_edge [of u v "edges G" "nodes G"] clusters_from_edge [of v u "edges G" "nodes G"]
      assms(2,3)
    by blast
qed

lemma for_range_tie_grows:
  assumes "wf_model m" and "for_range k tie m = Inr m'"
  shows "wf_model m' \<and> nodes (graph (buttons m')) = nodes (graph (buttons m)) \<and>
         set (edges (graph (buttons m))) \<subseteq> set (edges (graph (buttons m')))"
proof (rule for_range_invariant [where body = tie and k = k and m = m
      and I = "\<lambda>x. wf_model x \<and> nodes (graph (buttons x)) = nodes (graph (buttons m)) \<and>
         set (edges (graph (buttons m))) \<subseteq> set (edges (graph (buttons x)))"])
  show "wf_model m \<and> nodes (graph (buttons m)) = nodes (graph (buttons m)) \<and>
         set (edges (graph (buttons m))) \<subseteq> set (edges (graph (buttons m)))"
    using assms(1) by simp
  show "for_range k tie m = Inr m'" by (rule assms(2))
next
  fix x y
  assume x: "wf_model x \<and> nodes (graph (buttons x)) = nodes (graph (buttons m)) \<and>
         set (edges (graph (buttons m))) \<subseteq> set (edges (graph (buttons x)))"
    and t: "tie x = Inr y"
  from t obtain a b g' where r: "random2 (agents x) (rng x) = Inr ((a, b), g')"
    by (rule tie_Inr)
  from x have wf: "wf_model x" ..
  from tie_has_edge(4,6) [OF wf t r] tie_wf [OF wf t] x
  show "wf_model y \<and> nodes (graph (buttons y)) = nodes (graph (buttons m)) \<and>
         set (edges (graph (buttons m))) \<subseteq> set (edges (graph (buttons y)))"
    by auto
qed

lemma step_ties_something:
  assumes "wf_model m" and "step m = Inr m'" and "1 \<le> edges_per_step (params m)"
  shows "edges (graph (buttons m')) \<noteq> []"
proof -
  from assms(3) obtain k where k: "edges_per_step (params m) = Suc k"
    by (cases "edges_per_step (params m)") auto
  from step_loop(1) [OF assms(2)]
  obtain m1 where t: "tie m = Inr m1" and r: "for_range k tie m1 = Inr m'"
    unfolding k by (auto split: sum.splits)
  from t obtain a b g' where d: "random2 (agents m) (rng m) = Inr ((a, b), g')"
    by (rule tie_Inr)
  from tie_has_edge(5) [OF assms(1) t d] have "edges (graph (buttons m1)) \<noteq> []"
    by (auto simp: has_edge_def)
  moreover from for_range_tie_grows [OF tie_wf [OF assms(1) t] r]
  have "set (edges (graph (buttons m1))) \<subseteq> set (edges (graph (buttons m')))" by simp
  ultimately show ?thesis by (cases "edges (graph (buttons m1))") auto
qed

lemma two_nodes_one_cluster:
  assumes "wf_model m" and "nodes (graph (buttons m)) = [0, 1]"
    and "edges (graph (buttons m)) \<noteq> []"
  shows "\<exists>c \<in> set (connected_components (graph (buttons m))). 0 \<in> set c \<and> 1 \<in> set c"
    and "largest m = 2"
proof -
  from assms(3) obtain e where e: "e \<in> set (edges (graph (buttons m)))"
    by (cases "edges (graph (buttons m))") auto
  with assms(1,2) have ends: "fst e \<noteq> snd e" "fst e \<in> {0, 1}" "snd e \<in> {0, 1}"
    by (auto simp: wf_model_def)
  have "has_edge (fst e) (snd e) (graph (buttons m))"
    using e by (simp add: has_edge_def)
  from has_edge_same_cluster [OF this] ends(2,3) assms(2)
  obtain c where c: "c \<in> set (connected_components (graph (buttons m)))"
    "fst e \<in> set c" "snd e \<in> set c"
    by auto
  have both: "0 \<in> set c \<and> 1 \<in> set c" using ends c(2,3) by auto
  with c(1) show "\<exists>c \<in> set (connected_components (graph (buttons m))). 0 \<in> set c \<and> 1 \<in> set c"
    by blast
  have "card {0, 1 :: nat} \<le> card (set c)"
    using both by (intro card_mono) auto
  also have "\<dots> \<le> length c" by (rule card_length)
  also have "\<dots> \<le> largest m" unfolding largest_def using c(1) by (rule max_len_ge)
  finally have "2 \<le> largest m" by simp
  moreover have "largest m \<le> 2"
    using max_len_clusters_le [of "nodes (graph (buttons m))" "edges (graph (buttons m))"] assms(2)
    by (simp add: largest_def connected_components_def)
  ultimately show "largest m = 2" by simp
qed

section \<open>Dependence on the generator\<close>

lemma random2_eq:
  "random2 as g =
     (if length as < 2 then Inl ValueError
      else Inr ((as ! (raw g (drawn g) mod length as),
                 as ! (if raw g (Suc (drawn g)) mod (length as - 1) < raw g (drawn g) mod length as
                       then raw g (Suc (drawn g)) mod (length as - 1)
                       else Suc (raw g (Suc (drawn g)) mod (length as - 1)))),
                g\<lparr>drawn := Suc (Suc (drawn g))\<rparr>))"
  by (simp add: random2_def randbelow_def Let_def)

lemma tie_same_upto:
  assumes "same_upto K m1 m2" and "drawn (rng m1) + 2 \<le> K"
  shows "rel_sum (=) (same_upto K) (tie m1) (tie m2)"
proof -
  have r: "raw (rng m1) (drawn (rng m1)) = raw (rng m2) (drawn (rng m2))"
    "raw (rng m1) (Suc (drawn (rng m1))) = raw (rng m2) (Suc (drawn (rng m2)))"
    and d: "drawn (rng m1) = drawn (rng m2)"
    using assms by (simp_all add: same_upto_def)
  show ?thesis
    using assms(1) unfolding tie_def random2_eq r
    by (auto simp: same_upto_def)
qed

lemma for_range_tie_same_upto:
  "same_upto K m1 m2 \<Longrightarrow> drawn (rng m1) + 2 * k \<le> K \<Longrightarrow>
   rel_sum (=) (same_upto K) (for_range k tie m1) (for_range k tie m2)"
proof (induction k arbitrary: m1 m2)
  case 0
  then show ?case by simp
next
  case (Suc k)
  from Suc.prems have t: "rel_sum (=) (same_upto K) (tie m1) (tie m2)"
    by (intro tie_same_upto) simp_all
  show ?case
  proof (cases "tie m1")
    case (Inl e)
    with t show ?thesis by (cases "tie m2") simp_all
  next
    case (Inr a)
    with t obtain b where b: "tie m2 = Inr b" "same_upto K a b"
      by (cases "tie m2") simp_all
    have "drawn (rng a) + 2 * k \<le> K"
      using tie_fields(6) [OF Inr] Suc.prems(2) by simp
    from Suc.IH [OF b(2) this] Inr b(1) show ?thesis by simp
  qed
qed

lemma update_same_upto:
  assumes "same_upto K m1 m2"
  shows "rel_sum (=) (same_upto K) (update m1) (update m2)"
  using assms unfolding update_eq
  by (auto simp: same_upto_def largest_def record_var_def series_def)

lemma step_same_upto:
  assumes "same_upto K m1 m2" and "drawn (rng m1) + 2 * edges_per_step (params m1) \<le> K"
  shows "rel_sum (=) (same_upto K) (step m1) (step m2)"
proof -
  have p: "params m2 = params m1" using assms(1) by (simp add: same_upto_def)
  show ?thesis
  proof (cases "loop_bound (params m1)")
    case (Inl e)
    then show ?thesis by (simp add: step_def p)
  next
    case (Inr k)
    then have "drawn (rng m1) + 2 * nat k \<le> K"
      using assms(2) by (simp add: edges_per_step_def)
    with assms(1) have "rel_sum (=) (same_upto K) (for_range (nat k) tie m1) (for_range (nat k) tie m2)"
      by (rule for_range_tie_same_upto)
    then show ?thesis by (simp add: step_def p Inr)
  qed
qed

lemma runStep_same_upto:
  assumes "same_upto K m1 m2" and "drawn (rng m1) + 2 * edges_per_step (params m1) \<le> K"
  shows "rel_sum (=) (same_upto K) (runStep m1) (runStep m2)"
proof -
  have s: "rel_sum (=) (same_upto K) (step m1) (step m2)"
    using assms by (rule step_same_upto)
  show ?thesis
  proof (cases "step m1")
    case (Inl e)
    with s show ?thesis by (cases "step m2") (simp_all add: runStep_def)
  next
    case (Inr a)
    with s obtain b where b: "step m2 = Inr b" "same_upto K a b"
      by (cases "step m2") simp_all
    from update_same_upto [OF b(2)] Inr b(1) show ?thesis by (simp add: runStep_def)
  qed
qed

lemma runStep_drawn:
  assumes "runStep m = Inr m'"
  shows "drawn (rng m') = drawn (rng m) + 2 * edges_per_step (params m)"
  using assms by (auto elim!: runStep_Inr simp: step_fields(6) update_fields(5))

lemma for_range_runStep_same_upto:
  "same_upto K m1 m2 \<Longrightarrow> drawn (rng m1) + 2 * k * edges_per_step (params m1) \<le> K \<Longrightarrow>
   rel_sum (=) (same_upto K) (for_range k runStep m1) (for_range k runStep m2)"
proof (induction k arbitrary: m1 m2)
  case 0
  then show ?case by simp
next
  case (Suc k)
  have "drawn (rng m1) + 2 * edges_per_step (params m1) \<le> K"
    using Suc.prems(2) by (simp add: algebra_simps)
  with Suc.prems(1) have t: "rel_sum (=) (same_upto K) (runStep m1) (runStep m2)"
    by (rule runStep_same_upto)
  show ?case
  proof (cases "runStep m1")
    case (Inl e)
    with t show ?thesis by (cases "runStep m2") simp_all
  next
    case (Inr a)
    with t obtain b where b: "runStep m2 = Inr b" "same_upto K a b"
      by (cases "runStep m2") simp_all
    have "drawn (rng a) + 2 * k * edges_per_step (params a) \<le> K"
      using runStep_drawn [OF Inr] runStep_fields(1) [OF Inr] Suc.prems(2)
      by (simp add: algebra_simps)
    from Suc.IH [OF b(2) this] Inr b(1) show ?thesis by simp
  qed
qed

section \<open>The clusters are the connected components\<close>

lemma join_clusters_distinct:
  assumes "distinct (concat cs)"
  shows "distinct (concat (join_clusters e cs))"
proof (cases "filter (touches e) cs")
  case Nil
  then show ?thesis using assms by (simp add: join_clusters_def)
next
  case (Cons t ts)
  have "distinct (concat (filter P cs @ filter (\<lambda>c. \<not> P c) cs))" for P
    using assms
  proof (induction cs)
    case Nil
    then show ?case by simp
  next
    case (Cons c cs)
    then show ?case by (auto simp: disjoint_iff)
  qed
  from this [of "touches e"] show ?thesis
    using Cons by (simp add: join_clusters_def)
qed

lemma clusters_from_distinct: "distinct vs \<Longrightarrow> distinct (concat (clusters_from vs es))"
proof (induction es)
  case Nil
  then show ?case by (induction vs) auto
next
  case (Cons e es)
  then show ?case by (simp add: join_clusters_distinct)
qed

lemma distinct_concat_unique:
  assumes "distinct (concat cs)" and "c \<in> set cs" and "d \<in> set cs"
    and "x \<in> set c" and "x \<in> set d"
  shows "c = d"
  using assms
proof (induction cs)
  case Nil
  then show ?case by simp
next
  case (Cons a cs)
  then show ?case by (auto simp: disjoint_iff)
qed

lemma join_clusters_same:
  assumes "distinct (concat cs)"
    and "fst e \<in> \<Union> (set ` set cs)" and "snd e \<in> \<Union> (set ` set cs)"
  shows "(\<exists>c \<in> set (join_clusters e cs). u \<in> set c \<and> v \<in> set c) \<longleftrightarrow>
         (\<exists>c \<in> set cs. u \<in> set c \<and> v \<in> set c) \<or>
         (\<exists>c \<in> set cs. u \<in> set c \<and> touches e c) \<and> (\<exists>c \<in> set cs. v \<in> set c \<and> touches e c)"
proof -
  from assms(2) obtain t0 where "t0 \<in> set cs" "fst e \<in> set t0" by auto
  then have "t0 \<in> set (filter (touches e) cs)" by (simp add: touches_def)
  then obtain t ts where ts: "filter (touches e) cs = t # ts"
    by (cases "filter (touches e) cs") auto
  have j: "set (join_clusters e cs)
      = insert (concat (filter (touches e) cs)) {c \<in> set cs. \<not> touches e c}"
    using ts by (auto simp: join_clusters_def)
  have in_concat: "x \<in> set (concat (filter (touches e) cs)) \<longleftrightarrow> (\<exists>c \<in> set cs. x \<in> set c \<and> touches e c)"
    for x by auto
  show ?thesis
  proof
    assume "\<exists>c \<in> set (join_clusters e cs). u \<in> set c \<and> v \<in> set c"
    then show "(\<exists>c \<in> set cs. u \<in> set c \<and> v \<in> set c) \<or>
         (\<exists>c \<in> set cs. u \<in> set c \<and> touches e c) \<and> (\<exists>c \<in> set cs. v \<in> set c \<and> touches e c)"
      unfolding j using in_concat by blast
  next
    assume r: "(\<exists>c \<in> set cs. u \<in> set c \<and> v \<in> set c) \<or>
         (\<exists>c \<in> set cs. u \<in> set c \<and> touches e c) \<and> (\<exists>c \<in> set cs. v \<in> set c \<and> touches e c)"
    then show "\<exists>c \<in> set (join_clusters e cs). u \<in> set c \<and> v \<in> set c"
    proof
      assume "\<exists>c \<in> set cs. u \<in> set c \<and> v \<in> set c"
      then obtain c where c: "c \<in> set cs" "u \<in> set c" "v \<in> set c" by blast
      from join_clusters_grows [OF c(1), of e] c(2,3) show ?thesis by blast
    next
      assume "(\<exists>c \<in> set cs. u \<in> set c \<and> touches e c) \<and> (\<exists>c \<in> set cs. v \<in> set c \<and> touches e c)"
      then have "u \<in> set (concat (filter (touches e) cs))" "v \<in> set (concat (filter (touches e) cs))"
        unfolding in_concat by blast+
      then show ?thesis unfolding j by blast
    qed
  qed
qed

lemma rtrancl_add_link:
  assumes "sym R"
  shows "(u, v) \<in> (insert (a, b) (insert (b, a) R))\<^sup>* \<longleftrightarrow>
         (u, v) \<in> R\<^sup>* \<or>
         ((u, a) \<in> R\<^sup>* \<or> (u, b) \<in> R\<^sup>*) \<and> ((v, a) \<in> R\<^sup>* \<or> (v, b) \<in> R\<^sup>*)"
    (is "?L \<longleftrightarrow> ?R u v")
proof
  have s: "(x, y) \<in> R\<^sup>* \<Longrightarrow> (y, x) \<in> R\<^sup>*" for x y
    using sym_rtrancl [OF assms] by (auto dest: symD)
  have t: "(x, y) \<in> R\<^sup>* \<Longrightarrow> (y, z) \<in> R\<^sup>* \<Longrightarrow> (x, z) \<in> R\<^sup>*" for x y z
    by (rule rtrancl_trans)
  assume ?L
  then show "?R u v"
  proof (induction rule: rtrancl_induct)
    case base
    show ?case by simp
  next
    case (step y z)
    from step.hyps(2) consider "(y, z) \<in> R" | "y = a" "z = b" | "y = b" "z = a" by auto
    then show ?case
    proof cases
      case 1
      then have yz: "(y, z) \<in> R\<^sup>*" by blast
      from step.IH show ?thesis
      proof
        assume "(u, y) \<in> R\<^sup>*"
        with yz show ?thesis by (blast intro: t)
      next
        assume "((u, a) \<in> R\<^sup>* \<or> (u, b) \<in> R\<^sup>*) \<and> ((y, a) \<in> R\<^sup>* \<or> (y, b) \<in> R\<^sup>*)"
        with yz show ?thesis by (blast intro: t s)
      qed
    next
      case 2
      with step.IH show ?thesis by (blast intro: t s)
    next
      case 3
      with step.IH show ?thesis by (blast intro: t s)
    qed
  qed
next
  let ?R' = "insert (a, b) (insert (b, a) R)"
  have sub: "(x, y) \<in> R\<^sup>* \<Longrightarrow> (x, y) \<in> ?R'\<^sup>*" for x y
    by (rule rtrancl_mono [THEN subsetD]) auto
  have "sym ?R'" using assms by (auto simp: sym_def)
  then have s': "(x, y) \<in> ?R'\<^sup>* \<Longrightarrow> (y, x) \<in> ?R'\<^sup>*" for x y
    using sym_rtrancl by (auto dest: symD)
  have ab: "(a, b) \<in> ?R'\<^sup>*" "(b, a) \<in> ?R'\<^sup>*" by auto
  assume "?R u v"
  then show ?L
    using sub s' ab by (meson rtrancl_trans)
qed

lemma clusters_from_connected:
  assumes "distinct vs" and "\<forall>e \<in> set es. fst e \<in> set vs \<and> snd e \<in> set vs"
    and "u \<in> set vs" and "v \<in> set vs"
  shows "(\<exists>c \<in> set (clusters_from vs es). u \<in> set c \<and> v \<in> set c) \<longleftrightarrow>
         (u, v) \<in> (set es \<union> (set es)\<inverse>)\<^sup>*"
  using assms(2,3,4)
proof (induction es arbitrary: u v)
  case Nil
  then show ?case by auto
next
  case (Cons e es)
  let ?cs = "clusters_from vs es"
  let ?R = "set es \<union> (set es)\<inverse>"
  obtain a b where e: "e = (a, b)" by (cases e)
  have ends: "a \<in> set vs" "b \<in> set vs" using Cons.prems(1) e by simp_all
  have es: "\<forall>e \<in> set es. fst e \<in> set vs \<and> snd e \<in> set vs" using Cons.prems(1) by simp
  have ih: "(\<exists>c \<in> set ?cs. x \<in> set c \<and> y \<in> set c) \<longleftrightarrow> (x, y) \<in> ?R\<^sup>*"
    if "x \<in> set vs" "y \<in> set vs" for x y
    using Cons.IH [OF es that] .
  have d: "distinct (concat ?cs)" using assms(1) by (rule clusters_from_distinct)
  have cov: "\<Union> (set ` set ?cs) = set vs" by (rule clusters_from_cover)
  have touch: "(\<exists>c \<in> set ?cs. x \<in> set c \<and> touches e c) \<longleftrightarrow> (x, a) \<in> ?R\<^sup>* \<or> (x, b) \<in> ?R\<^sup>*"
    if x: "x \<in> set vs" for x
    unfolding ih [OF x ends(1), symmetric] ih [OF x ends(2), symmetric]
    by (auto simp: touches_def e)
  have "sym ?R" by (auto simp: sym_def)
  have R': "set (e # es) \<union> (set (e # es))\<inverse> = insert (a, b) (insert (b, a) ?R)"
    by (auto simp: e)
  have "(\<exists>c \<in> set (clusters_from vs (e # es)). u \<in> set c \<and> v \<in> set c) \<longleftrightarrow>
      (\<exists>c \<in> set ?cs. u \<in> set c \<and> v \<in> set c) \<or>
      (\<exists>c \<in> set ?cs. u \<in> set c \<and> touches e c) \<and> (\<exists>c \<in> set ?cs. v \<in> set c \<and> touches e c)"
    using join_clusters_same [OF d, of e u v] ends unfolding cov by (simp add: e)
  also have "\<dots> \<longleftrightarrow> (u, v) \<in> ?R\<^sup>* \<or>
      ((u, a) \<in> ?R\<^sup>* \<or> (u, b) \<in> ?R\<^sup>*) \<and> ((v, a) \<in> ?R\<^sup>* \<or> (v, b) \<in> ?R\<^sup>*)"
    unfolding ih [OF Cons.prems(2,3)] touch [OF Cons.prems(2)] touch [OF Cons.prems(3)] ..
  also have "\<dots> \<longleftrightarrow> (u, v) \<in> (set (e # es) \<union> (set (e # es))\<inverse>)\<^sup>*"
    unfolding R' using rtrancl_add_link [OF \<open>sym ?R\<close>, of u v a b] by simp
  finally show ?case .
qed

lemma connected_components_correct:
  assumes "distinct (nodes G)"
    and "\<forall>e \<in> set (edges G). fst e \<in> set (nodes G) \<and> snd e \<in> set (nodes G)"
  shows "distinct (concat (connected_components G))"
    and "set (concat (connected_components G)) = set (nodes G)"
    and "[] \<notin> set (connected_components G)"
    and "u \<in> set (nodes G) \<Longrightarrow> v \<in> set (nodes G) \<Longrightarrow>
         (\<exists>c \<in> set (connected_components G). u \<in> set c \<and> v \<in> set c) \<longleftrightarrow>
         (u, v) \<in> (set (edges G) \<union> (set (edges G))\<inverse>)\<^sup>*"
proof -
  show "distinct (concat (connected_components G))"
    unfolding connected_components_def using assms(1) by (rule clusters_from_distinct)
  show "set (concat (connected_components G)) = set (nodes G)"
    using clusters_from_cover [of "nodes G" "edges G"] by (simp add: connected_components_def)
  show "[] \<notin> set (connected_components G)"
    unfolding connected_components_def by (rule clusters_from_no_empty)
  show "(\<exists>c \<in> set (connected_components G). u \<in> set c \<and> v \<in> set c) \<longleftrightarrow>
         (u, v) \<in> (set (edges G) \<union> (set (edges G))\<inverse>)\<^sup>*"
    if "u \<in> set (nodes G)" "v \<in> set (nodes G)"
    unfolding connected_components_def using assms that by (rule clusters_from_connected)
qed

lemma reachable_components:
  assumes "reachable m"
  shows "distinct (concat (connected_components (graph (buttons m))))"
    and "set (concat (connected_components (graph (buttons m)))) = set (nodes (graph (buttons m)))"
    and "u \<in> set (nodes (graph (buttons m))) \<Longrightarrow> v \<in> set (nodes (graph (buttons m))) \<Longrightarrow>
         (\<exists>c \<in> set (connected_components (graph (buttons m))). u \<in> set c \<and> v \<in> set c) \<longleftrightarrow>
         (u, v) \<in> (set (edges (graph (buttons m))) \<union> (set (edges (graph (buttons m))))\<inverse>)\<^sup>*"
proof -
  from assms have "wf_model m" using reachable_wf_log by blast
  then have d: "distinct (nodes (graph (buttons m)))"
    and e: "\<forall>e \<in> set (edges (graph (buttons m))).
      fst e \<in> set (nodes (graph (buttons m))) \<and> snd e \<in> set (nodes (graph (buttons m)))"
    by (simp_all add: wf_model_def)
  show "distinct (concat (connected_components (graph (buttons m))))"
    and "set (concat (connected_components (graph (buttons m)))) = set (nodes (graph (buttons m)))"
    using connected_components_correct(1,2) [OF d e] .
  show "(\<exists>c \<in> set (connected_components (graph (buttons m))). u \<in> set c \<and> v \<in> set c) \<longleftrightarrow>
         (u, v) \<in> (set (edges (graph (buttons m))) \<union> (set (edges (graph (buttons m))))\<inverse>)\<^sup>*"
    if "u \<in> set (nodes (graph (buttons m)))" "v \<in> set (nodes (graph (buttons m)))"
    using connected_components_correct(4) [OF d e that] .
qed


section \<open>When the loop bound evaluates\<close>

lemma round_even_ge_floor: "\<lfloor>x\<rfloor> \<le> round_even x"
  by (simp add: round_even_def Let_def)

lemma to_float_ge_one:
  assumes "1 \<le> x" and "x < 2 ^ 1023"
  shows "\<exists>y. to_float x = Finite y \<and> 1 \<le> y"
proof -
  define l where "l = ilog2 \<bar>x\<bar>"
  define e where "e = max (ilog2 \<bar>x\<bar> - 52) (- 1074)"
  define m where "m = round_even (x / 2 powi e)"
  have x: "0 < x" "\<bar>x\<bar> = x" "x \<noteq> 0" using assms(1) by simp_all
  have "(2::rat) powi 0 \<le> \<bar>x\<bar>" using assms(1) x by simp
  then have l0: "0 \<le> l" unfolding l_def by (rule ilog2_ge)
  have "\<bar>x\<bar> < 2 powi 1023" using assms(2) x by simp
  with x have "l < 1023" unfolding l_def by (intro ilog2_less) simp_all
  then have e: "e = l - 52" and e970: "e \<le> 970" using l0 by (simp_all add: e_def l_def)
  have pos: "(0::rat) < 2 powi e" by simp
  have "(2::rat) powi l \<le> x" using ilog2_bounds(1) [of "\<bar>x\<bar>"] x by (simp add: l_def)
  then have "(2::rat) powi l / 2 powi e \<le> x / 2 powi e"
    using pos by (simp add: divide_right_mono)
  moreover have "(2::rat) powi l / 2 powi e = 2 powi 52"
  proof -
    have "(2::rat) powi (l - e) = 2 powi l / 2 powi e" by (rule power_int_diff) simp
    then show ?thesis by (simp add: e)
  qed
  ultimately have "(of_int (2 ^ 52) :: rat) \<le> x / 2 powi e" by simp
  then have "2 ^ 52 \<le> \<lfloor>x / 2 powi e\<rfloor>" by (simp only: le_floor_iff)
  then have m52: "2 ^ 52 \<le> m"
    unfolding m_def using round_even_ge_floor [of "x / 2 powi e"] by linarith
  have c: "\<not> (971 < e \<or> e = 971 \<and> 2 ^ 53 \<le> \<bar>m\<bar>)" using e970 by linarith
  have tf: "to_float x = Finite (of_int m * 2 powi e)"
    using to_float_nonzero [OF x(3) e_def m_def] c by (simp only: if_False)
  have "(of_int (2 ^ 52) :: rat) \<le> of_int m" using m52 by (simp only: of_int_le_iff)
  then have "(2::rat) powi 52 * 2 powi e \<le> of_int m * 2 powi e"
    using pos by (simp add: mult_right_mono)
  moreover have "(2::rat) powi 52 * 2 powi e = 2 powi l"
  proof -
    have "(2::rat) powi (52 + e) = 2 powi 52 * 2 powi e" by (rule power_int_add) simp
    then show ?thesis by (simp add: e)
  qed
  moreover have "(1::rat) \<le> 2 powi l"
    using power_int_increasing [of 0 l "2::rat"] l0 by simp
  ultimately have "(1::rat) \<le> of_int m * 2 powi e" by linarith
  with tf show ?thesis by blast
qed

lemma loop_bound_two:
  assumes "1 \<le> \<lfloor>2 * b\<rfloor>" and "2 * b < 2 ^ 1023"
  shows "\<exists>k. loop_bound \<lparr>p_n = 2, p_speed = Finite b, p_steps = t\<rparr> = Inr k \<and> 1 \<le> k"
proof -
  have two: "float_of_int 2 = Inr 2"
    using float_of_int_exact [of 2] by simp
  have "1 \<le> 2 * b" using assms(1) by linarith
  from to_float_ge_one [OF this assms(2)] obtain y where y: "to_float (2 * b) = Finite y" "1 \<le> y"
    by blast
  then have "1 \<le> \<lfloor>y\<rfloor>" by simp
  then show ?thesis using y by (simp add: loop_bound_def two)
qed

lemma loop_bound_overflow_example:
  "loop_bound \<lparr>p_n = 2, p_speed = Finite (2 ^ 1023), p_steps = t\<rparr> = Inl OverflowError"
proof -
  have two: "float_of_int 2 = Inr 2"
    using float_of_int_exact [of 2] by simp
  have "(2::rat) ^ 1024 \<le> \<bar>2 * 2 ^ 1023\<bar>" by simp
  from float_mul_overflow [OF this] have "float_mul 2 (Finite (2 ^ 1023)) = PosInf" by simp
  then show ?thesis by (simp add: loop_bound_def two)
qed

section \<open>Rounding\<close>

text \<open>
  Python rounds the quotients that \<^verbatim>\<open>update\<close> records to the nearest binary float.
  Rounding to nearest is monotone and leaves 0 and 1 as they are, and every such function
  keeps the order and the bounds of the exact quotients.
\<close>

lemma rounding_keeps_order:
  fixes fl :: "rat \<Rightarrow> rat"
  assumes "mono fl" and "sorted xs"
  shows "sorted (map fl xs)"
  using assms(2) by (induction xs) (auto dest: monoD [OF assms(1)])

lemma rounding_keeps_bounds:
  fixes fl :: "rat \<Rightarrow> rat"
  assumes "mono fl" and "fl 0 = 0" and "fl 1 = 1" and "0 \<le> x" and "x \<le> 1"
  shows "0 \<le> fl x \<and> fl x \<le> 1"
  using monoD [OF assms(1) assms(4)] monoD [OF assms(1) assms(5)] assms(2,3) by simp

section \<open>The claims\<close>

text \<open>
  Claim C1, as stated: construction with \<open>n < 2\<close>, with a negative \<open>speed\<close> or with
  negative \<open>steps\<close> fails with \<open>InvalidConfiguration\<close>, and after a construction that
  succeeds no operation fails. The method \<^verbatim>\<open>setup\<close> checks nothing: construction
  succeeds on each of these inputs (the speeds are the floats \<open>0.0\<close>, \<open>-0.1\<close> and
  \<open>1.0\<close>), and with a single agent the first pass of the loop of \<^verbatim>\<open>step\<close> finds no
  pair to tie. With two agents and a speed that is not negative, \<^verbatim>\<open>step\<close> still raises
  when the product \<open>n * speed\<close> is not a finite float: for the float \<open>2\<^sup>1\<^sup>0\<^sup>2\<^sup>3\<close> and for
  an infinite speed the product is infinite, and for NaN it is NaN.
\<close>

theorem construct_does_not_validate:
  "\<not> isl (construction \<lparr>p_n = 1, p_speed = Finite 0, p_steps = 0\<rparr> counting) \<and>
   \<not> isl (construction \<lparr>p_n = 2, p_speed = Finite (- (3602879701896397 / 36028797018963968)), p_steps = 1\<rparr> counting) \<and>
   \<not> isl (construction \<lparr>p_n = 2, p_speed = Finite 0, p_steps = - 1\<rparr> counting) \<and>
   construction \<lparr>p_n = 1, p_speed = Finite 1, p_steps = 1\<rparr> counting \<noteq> Inl InvalidConfiguration \<and>
   run \<lparr>p_n = 1, p_speed = Finite 1, p_steps = 1\<rparr> counting = Inl ValueError \<and>
   \<not> isl (construction \<lparr>p_n = 2, p_speed = Finite (2 ^ 1023), p_steps = 1\<rparr> counting) \<and>
   run \<lparr>p_n = 2, p_speed = Finite (2 ^ 1023), p_steps = 1\<rparr> counting = Inl OverflowError \<and>
   run \<lparr>p_n = 2, p_speed = PosInf, p_steps = 1\<rparr> counting = Inl OverflowError \<and>
   run \<lparr>p_n = 2, p_speed = NaN, p_steps = 1\<rparr> counting = Inl ValueError"
proof -
  have "run \<lparr>p_n = 1, p_speed = Finite 1, p_steps = 1\<rparr> counting = Inl ValueError"
    and "run \<lparr>p_n = 2, p_speed = PosInf, p_steps = 1\<rparr> counting = Inl OverflowError"
    and "run \<lparr>p_n = 2, p_speed = NaN, p_steps = 1\<rparr> counting = Inl ValueError"
    by code_simp+
  moreover have "run \<lparr>p_n = 2, p_speed = Finite (2 ^ 1023), p_steps = 1\<rparr> counting = Inl OverflowError"
    by (rule run_fails_at_bound [OF loop_bound_overflow_example]) simp
  ultimately show ?thesis by (simp add: construct_eq)
qed

text \<open>
  Claim C1, amended. Construction checks nothing and succeeds for every \<open>n\<close>, \<open>speed\<close>
  and \<open>steps\<close>. When \<open>n \<ge> 2\<close>, one pass of the loop of \<^verbatim>\<open>step\<close> and \<^verbatim>\<open>update\<close>
  succeed in every state of the run. When moreover the loop bound
  \<^verbatim>\<open>int(self.p.n * self.p.speed)\<close> evaluates, that is, when the float product is finite,
  no operation of the run fails, whatever \<open>steps\<close> is: \<^verbatim>\<open>step\<close> and \<^verbatim>\<open>step\<close> followed
  by \<^verbatim>\<open>update\<close> succeed in every state, and the run returns its MetricsLog. The bound
  evaluates whenever \<open>n\<close> is below \<open>2\<^sup>5\<^sup>3\<close> and the speed is a finite float with
  \<open>n * speed\<close> below \<open>2\<^sup>1\<^sup>0\<^sup>2\<^sup>3\<close> in absolute value.
\<close>

theorem construct_succeeds_and_run_cannot_fail:
  "(\<exists>m. construction p g = Inr m) \<and>
   (2 \<le> p_n p \<and> \<not> isl (loop_bound p) \<longrightarrow> (\<exists>ml. run p g = Inr ml)) \<and>
   (reachable m \<and> 2 \<le> p_n (params m) \<longrightarrow>
      (\<exists>m'. tie m = Inr m') \<and> (\<exists>m'. update m = Inr m')) \<and>
   (reachable m \<and> 2 \<le> p_n (params m) \<and> \<not> isl (loop_bound (params m)) \<longrightarrow>
      (\<exists>m'. step m = Inr m') \<and> (\<exists>m'. runStep m = Inr m')) \<and>
   (\<bar>p_n p\<bar> < 2 ^ 53 \<and> p_speed p = Finite b \<and> \<bar>of_int (p_n p) * b\<bar> < 2 ^ 1023 \<longrightarrow>
      \<not> isl (loop_bound p))"
proof (intro conjI impI)
  show "\<exists>m. construction p g = Inr m" by (simp add: construct_eq)
  show "\<exists>ml. run p g = Inr ml" if "2 \<le> p_n p \<and> \<not> isl (loop_bound p)"
    using that by (blast intro: run_succeeds)
next
  assume a: "reachable m \<and> 2 \<le> p_n (params m)"
  then have wf: "wf_model m" and n: "2 \<le> p_n (params m)"
    using reachable_wf_log by blast+
  show "\<exists>m'. tie m = Inr m'" using wf n by (rule tie_succeeds)
  show "\<exists>m'. update m = Inr m'" using wf n by (simp add: update_succeeds)
next
  assume a: "reachable m \<and> 2 \<le> p_n (params m) \<and> \<not> isl (loop_bound (params m))"
  then have wf: "wf_model m" and n: "2 \<le> p_n (params m)" and l: "\<not> isl (loop_bound (params m))"
    using reachable_wf_log by blast+
  show "\<exists>m'. step m = Inr m'" using wf n l by (rule step_succeeds)
  show "\<exists>m'. runStep m = Inr m'" using wf n l by (rule runStep_succeeds)
next
  assume a: "\<bar>p_n p\<bar> < 2 ^ 53 \<and> p_speed p = Finite b \<and> \<bar>of_int (p_n p) * b\<bar> < 2 ^ 1023"
  then have f: "float_of_int (p_n p) = Inr (of_int (p_n p))" by (simp add: float_of_int_exact)
  show "\<not> isl (loop_bound p)"
    by (rule loop_bound_finite [OF f, of b]) (use a in simp_all)
qed

theorem construct_succeeds_and_run_cannot_fail_witness:
  "\<not> isl (construction \<lparr>p_n = 2, p_speed = Finite 1, p_steps = 2\<rparr> counting) \<and>
   \<not> isl (loop_bound \<lparr>p_n = 2, p_speed = Finite 1, p_steps = 2\<rparr>) \<and>
   run \<lparr>p_n = 2, p_speed = Finite 1, p_steps = 2\<rparr> counting = Inr [(1, 1), (2, 1)] \<and>
   \<not> isl (runStep (projr (construction \<lparr>p_n = 2, p_speed = Finite 1, p_steps = 2\<rparr> counting)))"
proof -
  let ?p = "\<lparr>p_n = 2, p_speed = Finite 1, p_steps = 2\<rparr>"
  let ?m = "projr (construction ?p counting)"
  have c: "construction ?p counting = Inr ?m" by (simp add: construct_eq)
  have b: "\<bar>p_n ?p\<bar> < 2 ^ 53 \<and> p_speed ?p = Finite 1 \<and> \<bar>of_int (p_n ?p) * (1::rat)\<bar> < 2 ^ 1023"
    by simp
  note inst = construct_succeeds_and_run_cannot_fail [of ?p counting ?m 1]
  from inst b have l: "\<not> isl (loop_bound ?p)" by blast
  have r: "reachable ?m \<and> 2 \<le> p_n (params ?m) \<and> \<not> isl (loop_bound (params ?m))"
    using reachable.constructed [OF c] construct_fields(1) [OF c] l by simp
  from inst r have "\<exists>m'. runStep ?m = Inr m'" by blast
  then have s: "\<not> isl (runStep ?m)" by auto
  have e: "run ?p counting = Inr [(1, 1), (2, 1)]" by code_simp
  have i: "\<not> isl (construction ?p counting)" by (simp add: construct_eq)
  from i l s e show ?thesis by blast
qed

text \<open>
  Claim C2. Each simulation step appends exactly one pair to the MetricsLog, computed
  from the state that the step's edge additions leave, and the MetricsLog that a run
  returns has exactly \<open>steps\<close> entries. A run with \<open>n \<ge> 2\<close> returns its MetricsLog
  whenever the loop bound \<^verbatim>\<open>int(self.p.n * self.p.speed)\<close> evaluates.
\<close>

theorem one_entry_per_step:
  "(reachable m \<and> runStep m = Inr m' \<longrightarrow>
      (\<exists>m1. step m = Inr m1 \<and>
         MetricsLog m' = MetricsLog m @
           [(of_int (threads m1) / of_int (p_n (params m1)),
             of_nat (max_len (connected_components (graph (buttons m1)))) / of_int (p_n (params m1)))])) \<and>
   (run p g = Inr ml \<longrightarrow> length ml = nat (p_steps p)) \<and>
   (2 \<le> p_n p \<and> 0 \<le> p_steps p \<and> \<not> isl (loop_bound p) \<longrightarrow>
      (\<exists>ml. run p g = Inr ml \<and> int (length ml) = p_steps p))"
proof (intro conjI impI)
  assume a: "reachable m \<and> runStep m = Inr m'"
  then obtain m1 where s: "step m = Inr m1" and u: "update m1 = Inr m'"
    by (auto elim: runStep_Inr)
  from a have "wf_model m \<and> log_inv m" by (simp add: reachable_wf_log)
  from wf_log_step [OF this s] have "log_inv m1" ..
  from MetricsLog_update [OF this u] MetricsLog_step [OF s] s
  show "\<exists>m1. step m = Inr m1 \<and>
         MetricsLog m' = MetricsLog m @
           [(of_int (threads m1) / of_int (p_n (params m1)),
             of_nat (max_len (connected_components (graph (buttons m1)))) / of_int (p_n (params m1)))]"
    by (auto simp: largest_def)
next
  assume "run p g = Inr ml"
  then show "length ml = nat (p_steps p)" by (rule run_length)
next
  assume a: "2 \<le> p_n p \<and> 0 \<le> p_steps p \<and> \<not> isl (loop_bound p)"
  then obtain ml where r: "run p g = Inr ml" using run_succeeds by blast
  from run_length [OF r] a have "int (length ml) = p_steps p" by simp
  with r show "\<exists>ml. run p g = Inr ml \<and> int (length ml) = p_steps p" by blast
qed

theorem one_entry_per_step_witness:
  "run \<lparr>p_n = 3, p_speed = Finite (1 / 2), p_steps = 2\<rparr> counting = Inr [(1 / 3, 2 / 3), (2 / 3, 1)] \<and>
   length [(1 / 3, 2 / 3), (2 / 3, 1 :: rat)] = nat (p_steps \<lparr>p_n = 3, p_speed = Finite (1 / 2), p_steps = 2\<rparr>) \<and>
   \<not> isl (runStep (projr (construction \<lparr>p_n = 3, p_speed = Finite (1 / 2), p_steps = 2\<rparr> counting))) \<and>
   MetricsLog (projr (runStep (projr (construction \<lparr>p_n = 3, p_speed = Finite (1 / 2), p_steps = 2\<rparr> counting))))
     = MetricsLog (projr (construction \<lparr>p_n = 3, p_speed = Finite (1 / 2), p_steps = 2\<rparr> counting)) @ [(1 / 3, 2 / 3)]"
proof -
  let ?p = "\<lparr>p_n = 3, p_speed = Finite (1 / 2), p_steps = 2\<rparr>"
  let ?m = "projr (construction ?p counting)"
  let ?m' = "projr (runStep ?m)"
  have c: "construction ?p counting = Inr ?m" by (simp add: construct_eq)
  have i: "\<not> isl (runStep ?m)" by code_simp
  then have s: "runStep ?m = Inr ?m'" by simp
  have r: "reachable ?m \<and> runStep ?m = Inr ?m'"
    using reachable.constructed [OF c] s by simp
  have v: "MetricsLog ?m' = MetricsLog ?m @ [(1 / 3, 2 / 3)]" by code_simp
  have "\<not> isl (loop_bound ?p)" by code_simp
  then have n: "2 \<le> p_n ?p \<and> 0 \<le> p_steps ?p \<and> \<not> isl (loop_bound ?p)" by simp
  from one_entry_per_step [of ?m ?m' ?p counting "[(1 / 3, 2 / 3), (2 / 3, 1)]"] r n run_example_3 i v
  show ?thesis by auto
qed

text \<open>
  Claim C3. The two agents that the loop of \<^verbatim>\<open>step\<close> draws sit on different nodes, so
  that no edge of the graph ever joins a node to itself, and the nodes of a tied pair lie
  in one cluster. Consequently, for \<open>n = 2\<close>, \<open>steps = 1\<close> and a speed with
  \<open>floor (n * speed) \<ge> 1\<close>, after the single step both nodes lie in the same cluster
  and the recorded largest cluster fraction is 1. The boundary case is stated twice: for
  every float speed for which the loop bound evaluates to at least 1, and for every
  finite speed \<open>v\<close> with \<open>floor (2 * v) \<ge> 1\<close> and \<open>2 * v\<close> below \<open>2\<^sup>1\<^sup>0\<^sup>2\<^sup>3\<close>, where the
  bound does evaluate to at least 1 (beyond the largest float the product is infinite and
  \<^verbatim>\<open>int\<close> raises).
\<close>

theorem tied_nodes_are_distinct:
  "(reachable m \<and> random2 (agents m) (rng m) = Inr ((a, b), g') \<longrightarrow> node a \<noteq> node b) \<and>
   (reachable m \<longrightarrow> (\<forall>e \<in> set (edges (graph (buttons m))). fst e \<noteq> snd e)) \<and>
   (reachable m \<and> random2 (agents m) (rng m) = Inr ((a, b), g') \<and> tie m = Inr m' \<longrightarrow>
      (\<exists>c \<in> set (connected_components (graph (buttons m'))). node a \<in> set c \<and> node b \<in> set c)) \<and>
   (loop_bound \<lparr>p_n = 2, p_speed = s, p_steps = 1\<rparr> = Inr k \<and> 1 \<le> k \<longrightarrow>
      (\<exists>mf r. simulate \<lparr>p_n = 2, p_speed = s, p_steps = 1\<rparr> g = Inr mf \<and>
         nodes (graph (buttons mf)) = [0, 1] \<and>
         (\<exists>c \<in> set (connected_components (graph (buttons mf))). 0 \<in> set c \<and> 1 \<in> set c) \<and>
         run \<lparr>p_n = 2, p_speed = s, p_steps = 1\<rparr> g = Inr [(r, 1)])) \<and>
   (1 \<le> \<lfloor>2 * v\<rfloor> \<and> 2 * v < 2 ^ 1023 \<longrightarrow>
      (\<exists>mf r. simulate \<lparr>p_n = 2, p_speed = Finite v, p_steps = 1\<rparr> g = Inr mf \<and>
         nodes (graph (buttons mf)) = [0, 1] \<and>
         (\<exists>c \<in> set (connected_components (graph (buttons mf))). 0 \<in> set c \<and> 1 \<in> set c) \<and>
         run \<lparr>p_n = 2, p_speed = Finite v, p_steps = 1\<rparr> g = Inr [(r, 1)]))"
proof (intro conjI impI)
  assume a: "reachable m \<and> random2 (agents m) (rng m) = Inr ((a, b), g')"
  then have "distinct (map node (agents m))"
    using reachable_wf_log [of m] by (simp add: wf_model_def)
  with a show "node a \<noteq> node b" by (blast dest: random2_distinct(3))
next
  assume "reachable m"
  then have "wf_model m" using reachable_wf_log by blast
  then show "\<forall>e \<in> set (edges (graph (buttons m))). fst e \<noteq> snd e"
    by (simp add: wf_model_def)
next
  assume a: "reachable m \<and> random2 (agents m) (rng m) = Inr ((a, b), g') \<and> tie m = Inr m'"
  then have wf: "wf_model m" using reachable_wf_log by blast
  from a have t: "tie m = Inr m'" and r: "random2 (agents m) (rng m) = Inr ((a, b), g')"
    by simp_all
  note h = tie_has_edge [OF wf t r]
  show "\<exists>c \<in> set (connected_components (graph (buttons m'))). node a \<in> set c \<and> node b \<in> set c"
    using h(2,3) unfolding h(4) [symmetric] by (rule has_edge_same_cluster [OF h(5)])
next
  have boundary: "\<exists>mf r. simulate \<lparr>p_n = 2, p_speed = s', p_steps = 1\<rparr> g = Inr mf \<and>
         nodes (graph (buttons mf)) = [0, 1] \<and>
         (\<exists>c \<in> set (connected_components (graph (buttons mf))). 0 \<in> set c \<and> 1 \<in> set c) \<and>
         run \<lparr>p_n = 2, p_speed = s', p_steps = 1\<rparr> g = Inr [(r, 1)]"
    if lb: "loop_bound \<lparr>p_n = 2, p_speed = s', p_steps = 1\<rparr> = Inr k'" and k1: "1 \<le> k'"
    for s' k'
  proof -
    let ?p = "\<lparr>p_n = 2, p_speed = s', p_steps = 1\<rparr>"
    have e: "1 \<le> edges_per_step ?p"
      using k1 by (simp add: edges_per_step_bound [OF lb])
    have l: "\<not> isl (loop_bound ?p)" by (simp add: lb)
    obtain m0 where c: "construction ?p g = Inr m0" by (simp add: construct_eq)
    note f = construct_fields [OF c]
    have wf0: "wf_model m0" using construct_wf_log [OF c] ..
    obtain m1 where st: "step m0 = Inr m1" using step_succeeds [OF wf0] f(1) l by auto
    have wf1: "wf_model m1" and n1: "nodes (graph (buttons m1)) = [0, 1]"
      using for_range_tie_grows [OF wf0 step_loop(1) [OF st]] f(5) by (simp_all add: upt_rec)
    have e1: "edges (graph (buttons m1)) \<noteq> []"
      using wf0 st e unfolding f(1) [symmetric] by (rule step_ties_something)
    note two = two_nodes_one_cluster [OF wf1 n1 e1]
    have p1: "params m1 = ?p" using step_fields(1) [OF st] f(1) by simp
    obtain mf where u: "update m1 = Inr mf" using update_succeeds [OF wf1] p1 by auto
    have sim: "simulate ?p g = Inr mf"
      using c st u by (simp add: simulate_def runStep_def)
    have l1: "MetricsLog m1 = []"
      using MetricsLog_step [OF st] by (simp add: MetricsLog_def series_def f(3))
    have "log_inv m1"
      using reachable_wf_log [OF reachable_step [OF reachable.constructed [OF c] st]] ..
    from MetricsLog_update [OF this u]
    have "MetricsLog mf = [(of_int (threads m1) / 2, 1)]"
      unfolding l1 two(2) p1 by simp
    then have "run ?p g = Inr [(of_int (threads m1) / 2, 1)]"
      using sim by (simp add: run_def)
    moreover have "nodes (graph (buttons mf)) = [0, 1]"
      and "\<exists>c \<in> set (connected_components (graph (buttons mf))). 0 \<in> set c \<and> 1 \<in> set c"
      using n1 two(1) unfolding update_fields(2) [OF u] by simp_all
    ultimately show ?thesis using sim by blast
  qed
  {
    assume "loop_bound \<lparr>p_n = 2, p_speed = s, p_steps = 1\<rparr> = Inr k \<and> 1 \<le> k"
    then show "\<exists>mf r. simulate \<lparr>p_n = 2, p_speed = s, p_steps = 1\<rparr> g = Inr mf \<and>
         nodes (graph (buttons mf)) = [0, 1] \<and>
         (\<exists>c \<in> set (connected_components (graph (buttons mf))). 0 \<in> set c \<and> 1 \<in> set c) \<and>
         run \<lparr>p_n = 2, p_speed = s, p_steps = 1\<rparr> g = Inr [(r, 1)]"
      by (blast intro: boundary)
  }
  {
    assume "1 \<le> \<lfloor>2 * v\<rfloor> \<and> 2 * v < 2 ^ 1023"
    then obtain k' where "loop_bound \<lparr>p_n = 2, p_speed = Finite v, p_steps = 1\<rparr> = Inr k'" "1 \<le> k'"
      using loop_bound_two [of v 1] by blast
    then show "\<exists>mf r. simulate \<lparr>p_n = 2, p_speed = Finite v, p_steps = 1\<rparr> g = Inr mf \<and>
         nodes (graph (buttons mf)) = [0, 1] \<and>
         (\<exists>c \<in> set (connected_components (graph (buttons mf))). 0 \<in> set c \<and> 1 \<in> set c) \<and>
         run \<lparr>p_n = 2, p_speed = Finite v, p_steps = 1\<rparr> g = Inr [(r, 1)]"
      by (rule boundary)
  }
qed

theorem tied_nodes_are_distinct_witness:
  "\<not> isl (random2 (agents (projr (construction \<lparr>p_n = 2, p_speed = Finite (1 / 2), p_steps = 1\<rparr> counting)))
            (rng (projr (construction \<lparr>p_n = 2, p_speed = Finite (1 / 2), p_steps = 1\<rparr> counting)))) \<and>
   node (fst (fst (projr (random2
       (agents (projr (construction \<lparr>p_n = 2, p_speed = Finite (1 / 2), p_steps = 1\<rparr> counting)))
       (rng (projr (construction \<lparr>p_n = 2, p_speed = Finite (1 / 2), p_steps = 1\<rparr> counting))))))) \<noteq>
   node (snd (fst (projr (random2
       (agents (projr (construction \<lparr>p_n = 2, p_speed = Finite (1 / 2), p_steps = 1\<rparr> counting)))
       (rng (projr (construction \<lparr>p_n = 2, p_speed = Finite (1 / 2), p_steps = 1\<rparr> counting))))))) \<and>
   loop_bound \<lparr>p_n = 2, p_speed = Finite (1 / 2), p_steps = 1\<rparr> = Inr 1 \<and>
   (1 :: int) \<le> \<lfloor>2 * (1 / 2 :: rat)\<rfloor> \<and>
   run \<lparr>p_n = 2, p_speed = Finite (1 / 2), p_steps = 1\<rparr> counting = Inr [(1 / 2, 1)]"
proof -
  let ?p = "\<lparr>p_n = 2, p_speed = Finite (1 / 2), p_steps = 1\<rparr>"
  let ?m = "projr (construction ?p counting)"
  let ?x = "projr (random2 (agents ?m) (rng ?m))"
  have c: "construction ?p counting = Inr ?m" by (simp add: construct_eq)
  have r: "reachable ?m" using c by (rule reachable.constructed)
  have i: "\<not> isl (random2 (agents ?m) (rng ?m))" by code_simp
  then have d: "random2 (agents ?m) (rng ?m) = Inr ((fst (fst ?x), snd (fst ?x)), snd ?x)"
    by simp
  have j: "\<not> isl (tie ?m)" by code_simp
  then have t: "tie ?m = Inr (projr (tie ?m))" by simp
  have s: "(1 :: int) \<le> \<lfloor>2 * (1 / 2 :: rat)\<rfloor>" by simp
  have l: "loop_bound ?p = Inr 1" by code_simp
  have e: "run ?p counting = Inr [(1 / 2, 1)]" by code_simp
  from tied_nodes_are_distinct
    [of ?m "fst (fst ?x)" "snd (fst ?x)" "snd ?x" "projr (tie ?m)" "Finite (1 / 2)" 1 counting "1 / 2"]
    r d t
  have "node (fst (fst ?x)) \<noteq> node (snd (fst ?x))" by blast
  with i s e l show ?thesis by blast
qed

text \<open>
  Claim C4. In every run and at every step, the recorded largest cluster fraction lies
  between 0 and 1 inclusive: every entry of the MetricsLog that a run returns has its
  second component in that interval.
\<close>

theorem max_cluster_fraction_bounds:
  assumes "run p g = Inr ml" and "(r, c) \<in> set ml"
  shows "0 \<le> c \<and> c \<le> 1"
proof -
  from assms have n: "1 \<le> p_n p" and lo: "1 / of_int (p_n p) \<le> c" and hi: "c \<le> 1"
    by (rule run_entry)+
  have "(0 :: rat) \<le> 1 / of_int (p_n p)" using n by simp
  from this lo have "0 \<le> c" by (rule order_trans)
  then show ?thesis using hi ..
qed

theorem max_cluster_fraction_bounds_witness:
  "run \<lparr>p_n = 3, p_speed = Finite (1 / 2), p_steps = 2\<rparr> counting = Inr [(1 / 3, 2 / 3), (2 / 3, 1)] \<and>
   (1 / 3, 2 / 3) \<in> set [(1 / 3 :: rat, 2 / 3 :: rat), (2 / 3, 1)] \<and>
   (0 :: rat) \<le> 2 / 3 \<and> (2 / 3 :: rat) \<le> 1"
proof -
  have h: "(1 / 3, 2 / 3) \<in> set [(1 / 3 :: rat, 2 / 3 :: rat), (2 / 3, 1)]" by simp
  from max_cluster_fraction_bounds [OF run_example_3 h] run_example_3 h show ?thesis
    by blast
qed

text \<open>
  Claim C5. Within one run the recorded threads to node ratio never decreases: the first
  components of the MetricsLog are sorted, so the entry of step \<open>k + 1\<close> is at least the
  entry of step \<open>k\<close>.
\<close>

theorem threads_to_node_ratio_monotone:
  assumes "run p g = Inr ml"
  shows "sorted (map fst ml) \<and> (\<forall>k. Suc k < length ml \<longrightarrow> fst (ml ! k) \<le> fst (ml ! Suc k))"
proof -
  from assms obtain m where ml: "ml = MetricsLog m" and li: "log_inv m"
    by (rule run_facts)
  have s: "sorted (map fst ml)"
    using li unfolding ml MetricsLog_maps(1) [OF li] by (simp add: log_inv_def)
  have "fst (ml ! k) \<le> fst (ml ! Suc k)" if "Suc k < length ml" for k
    using sorted_consecutive [OF s, of k] that by simp
  with s show ?thesis by blast
qed

theorem threads_to_node_ratio_monotone_witness:
  "run \<lparr>p_n = 4, p_speed = Finite (1 / 2), p_steps = 3\<rparr> counting
     = Inr [(1 / 2, 1 / 2), (1, 1), (3 / 2, 1)] \<and>
   sorted (map fst ([(1 / 2, 1 / 2), (1, 1), (3 / 2, 1)] :: (rat \<times> rat) list))"
proof -
  have h: "run \<lparr>p_n = 4, p_speed = Finite (1 / 2), p_steps = 3\<rparr> counting
     = Inr [(1 / 2, 1 / 2), (1, 1), (3 / 2, 1)]"
    by code_simp
  from threads_to_node_ratio_monotone [OF h] h show ?thesis by blast
qed

text \<open>
  Claim C6. Within one run the recorded largest cluster fraction is flat or increasing
  from step to step: the second components of the MetricsLog are sorted. The reason is
  that tying a pair only adds to the edges and never shrinks the largest cluster.
\<close>

theorem max_cluster_fraction_monotone:
  "(run p g = Inr ml \<longrightarrow>
      sorted (map snd ml) \<and>
      (\<forall>k. Suc k < length ml \<longrightarrow> snd (ml ! k) \<le> snd (ml ! Suc k))) \<and>
   (reachable m \<and> tie m = Inr m' \<longrightarrow>
      set (edges (graph (buttons m))) \<subseteq> set (edges (graph (buttons m'))) \<and>
      max_len (connected_components (graph (buttons m)))
        \<le> max_len (connected_components (graph (buttons m'))))"
proof (intro conjI impI)
  assume "run p g = Inr ml"
  then obtain mf where ml: "ml = MetricsLog mf" and li: "log_inv mf"
    by (rule run_facts)
  show s: "sorted (map snd ml)"
    using li unfolding ml MetricsLog_maps(2) [OF li] by (simp add: log_inv_def)
  have "snd (ml ! k) \<le> snd (ml ! Suc k)" if "Suc k < length ml" for k
    using sorted_consecutive [OF s, of k] that by simp
  then show "\<forall>k. Suc k < length ml \<longrightarrow> snd (ml ! k) \<le> snd (ml ! Suc k)" by blast
next
  assume a: "reachable m \<and> tie m = Inr m'"
  then have wf: "wf_model m" and t: "tie m = Inr m'"
    using reachable_wf_log by blast+
  from t obtain a b g' where r: "random2 (agents m) (rng m) = Inr ((a, b), g')"
    by (rule tie_Inr)
  show "set (edges (graph (buttons m))) \<subseteq> set (edges (graph (buttons m')))"
    using wf t r by (rule tie_has_edge(6))
  show "max_len (connected_components (graph (buttons m)))
        \<le> max_len (connected_components (graph (buttons m')))"
    using tie_largest [OF wf t] by (simp add: largest_def)
qed

theorem max_cluster_fraction_monotone_witness:
  "run \<lparr>p_n = 5, p_speed = Finite (1 / 4), p_steps = 3\<rparr> counting
     = Inr [(1 / 5, 2 / 5), (2 / 5, 3 / 5), (3 / 5, 4 / 5)] \<and>
   sorted (map snd ([(1 / 5, 2 / 5), (2 / 5, 3 / 5), (3 / 5, 4 / 5)] :: (rat \<times> rat) list)) \<and>
   max_len (connected_components (graph (buttons
       (projr (construction \<lparr>p_n = 5, p_speed = Finite (1 / 4), p_steps = 3\<rparr> counting))))) = 1 \<and>
   max_len (connected_components (graph (buttons
       (projr (tie (projr (construction \<lparr>p_n = 5, p_speed = Finite (1 / 4), p_steps = 3\<rparr> counting))))))) = 2"
proof -
  let ?p = "\<lparr>p_n = 5, p_speed = Finite (1 / 4), p_steps = 3\<rparr>"
  let ?mc = "projr (construction ?p counting)"
  have h: "run ?p counting = Inr [(1 / 5, 2 / 5), (2 / 5, 3 / 5), (3 / 5, 4 / 5)]"
    by code_simp
  have c: "construction ?p counting = Inr ?mc" by (simp add: construct_eq)
  have "\<not> isl (tie ?mc)" by code_simp
  then have t: "tie ?mc = Inr (projr (tie ?mc))" by simp
  have r: "reachable ?mc \<and> tie ?mc = Inr (projr (tie ?mc))"
    using reachable.constructed [OF c] t by simp
  have v: "max_len (connected_components (graph (buttons ?mc))) = 1"
    "max_len (connected_components (graph (buttons (projr (tie ?mc))))) = 2"
    by code_simp+
  from max_cluster_fraction_monotone
    [of ?p counting "[(1 / 5, 2 / 5), (2 / 5, 3 / 5), (3 / 5, 4 / 5)]" ?mc "projr (tie ?mc)"] h r v
  show ?thesis by blast
qed

text \<open>
  Claim C7. When the drawn pair is already joined by an edge, tying it again increments
  the thread count and leaves the graph as it is, so that the clusters and the largest
  cluster fraction are those of before.
\<close>

theorem duplicate_edge_counts_as_thread:
  "reachable m \<and> random2 (agents m) (rng m) = Inr ((a, b), g') \<and>
   has_edge (node a) (node b) (graph (buttons m)) \<longrightarrow>
     (\<exists>m'. tie m = Inr m' \<and>
        threads m' = threads m + 1 \<and>
        graph (buttons m') = graph (buttons m) \<and>
        connected_components (graph (buttons m')) = connected_components (graph (buttons m)) \<and>
        (of_nat (max_len (connected_components (graph (buttons m')))) / of_int (p_n (params m')) :: rat)
          = of_nat (max_len (connected_components (graph (buttons m)))) / of_int (p_n (params m)))"
proof
  assume a: "reachable m \<and> random2 (agents m) (rng m) = Inr ((a, b), g') \<and>
    has_edge (node a) (node b) (graph (buttons m))"
  then have wf: "wf_model m" using reachable_wf_log by blast
  from a have r: "random2 (agents m) (rng m) = Inr ((a, b), g')"
    and h: "has_edge (node a) (node b) (graph (buttons m))"
    by simp_all
  define m' where "m' = m\<lparr>buttons := (buttons m)\<lparr>graph := add_edge (node a) (node b) (graph (buttons m))\<rparr>,
                 threads := threads m + 1, rng := g'\<rparr>"
  have t: "tie m = Inr m'" using r by (simp add: tie_def m'_def)
  have "add_edge (node a) (node b) (graph (buttons m)) = graph (buttons m)"
    using tie_has_edge(2,3) [OF wf t r] h by (simp add: add_edge_members)
  then have g: "graph (buttons m') = graph (buttons m)" by (simp add: m'_def)
  have "threads m' = threads m + 1" and "params m' = params m" by (simp_all add: m'_def)
  with t g show "\<exists>m'. tie m = Inr m' \<and>
        threads m' = threads m + 1 \<and>
        graph (buttons m') = graph (buttons m) \<and>
        connected_components (graph (buttons m')) = connected_components (graph (buttons m)) \<and>
        (of_nat (max_len (connected_components (graph (buttons m')))) / of_int (p_n (params m')) :: rat)
          = of_nat (max_len (connected_components (graph (buttons m)))) / of_int (p_n (params m))"
    by auto
qed

theorem duplicate_edge_counts_as_thread_witness:
  "has_edge 0 1 (graph (buttons (projr (tie (projr (construction \<lparr>p_n = 2, p_speed = Finite 1, p_steps = 1\<rparr> counting)))))) \<and>
   threads (projr (tie (projr (construction \<lparr>p_n = 2, p_speed = Finite 1, p_steps = 1\<rparr> counting)))) = 1 \<and>
   threads (projr (tie (projr (tie (projr (construction \<lparr>p_n = 2, p_speed = Finite 1, p_steps = 1\<rparr> counting)))))) = 2 \<and>
   connected_components (graph (buttons
     (projr (tie (projr (tie (projr (construction \<lparr>p_n = 2, p_speed = Finite 1, p_steps = 1\<rparr> counting)))))))) = [[0, 1]]"
proof -
  let ?p = "\<lparr>p_n = 2, p_speed = Finite 1, p_steps = 1\<rparr>"
  let ?mc = "projr (construction ?p counting)"
  let ?m = "projr (tie ?mc)"
  let ?x = "projr (random2 (agents ?m) (rng ?m))"
  have c: "construction ?p counting = Inr ?mc" by (simp add: construct_eq)
  have "\<not> isl (tie ?mc)" by code_simp
  then have t0: "tie ?mc = Inr ?m" by simp
  have r: "reachable ?m" using reachable.constructed [OF c] t0 by (rule reachable.tied)
  have "\<not> isl (random2 (agents ?m) (rng ?m))" by code_simp
  then have d: "random2 (agents ?m) (rng ?m) = Inr ((fst (fst ?x), snd (fst ?x)), snd ?x)"
    by simp
  have ab: "node (fst (fst ?x)) = 0" "node (snd (fst ?x)) = 1" by code_simp+
  have h: "has_edge 0 1 (graph (buttons ?m))" by code_simp
  have t1: "threads ?m = 1" by code_simp
  have cc: "connected_components (graph (buttons ?m)) = [[0, 1]]" by code_simp
  from duplicate_edge_counts_as_thread [of ?m "fst (fst ?x)" "snd (fst ?x)" "snd ?x"] r d h
  obtain m' where "tie ?m = Inr m'" "threads m' = threads ?m + 1"
    "connected_components (graph (buttons m')) = connected_components (graph (buttons ?m))"
    unfolding ab by blast
  then have "threads (projr (tie ?m)) = 2"
    and "connected_components (graph (buttons (projr (tie ?m)))) = [[0, 1]]"
    using t1 cc by simp_all
  with h t1 show ?thesis by blast
qed



text \<open>
  Claim C9. The MetricsLog is a function of the configuration and of the generator alone,
  and of the generator it uses only the raw numbers that the run consumes, two for each
  edge: two runs with the same configuration whose generators have consumed equally many
  numbers and agree on the next \<open>2 * steps * floor (n * speed)\<close> raw numbers (as
  generators of the same seed do) return the same MetricsLog or fail alike.
\<close>

theorem run_repeatable:
  "drawn g1 = drawn g2 \<and>
   (\<forall>k. drawn g1 \<le> k \<and> k < drawn g1 + 2 * nat (p_steps p) * edges_per_step p
        \<longrightarrow> raw g1 k = raw g2 k)
   \<longrightarrow> run p g1 = run p g2"
proof
  let ?K = "drawn g1 + 2 * nat (p_steps p) * edges_per_step p"
  assume a: "drawn g1 = drawn g2 \<and> (\<forall>k. drawn g1 \<le> k \<and> k < ?K \<longrightarrow> raw g1 k = raw g2 k)"
  obtain m1 where c1: "construction p g1 = Inr m1" by (simp add: construct_eq)
  obtain m2 where c2: "construction p g2 = Inr m2" by (simp add: construct_eq)
  have s: "same_upto ?K m1 m2"
    using c1 c2 a unfolding construct_eq by (auto simp: same_upto_def)
  have "drawn (rng m1) + 2 * nat (p_steps p) * edges_per_step (params m1) \<le> ?K"
    by (simp add: construct_fields [OF c1])
  from for_range_runStep_same_upto [OF s this]
  have r: "rel_sum (=) (same_upto ?K) (simulate p g1) (simulate p g2)"
    by (simp add: simulate_def c1 c2)
  show "run p g1 = run p g2"
  proof (cases "simulate p g1")
    case (Inl e)
    with r show ?thesis by (cases "simulate p g2") (simp_all add: run_def)
  next
    case (Inr a)
    with r obtain b where b: "simulate p g2 = Inr b" "same_upto ?K a b"
      by (cases "simulate p g2") simp_all
    then have "MetricsLog a = MetricsLog b"
      by (simp add: MetricsLog_def series_def same_upto_def)
    with Inr b(1) show ?thesis by (simp add: run_def)
  qed
qed

theorem run_repeatable_witness:
  "run \<lparr>p_n = 3, p_speed = Finite (1 / 2), p_steps = 2\<rparr> counting
     = run \<lparr>p_n = 3, p_speed = Finite (1 / 2), p_steps = 2\<rparr> \<lparr>raw = min 4, drawn = 0\<rparr> \<and>
   run \<lparr>p_n = 3, p_speed = Finite (1 / 2), p_steps = 2\<rparr> \<lparr>raw = min 4, drawn = 0\<rparr>
     = Inr [(1 / 3, 2 / 3), (2 / 3, 1)]"
proof -
  let ?p = "\<lparr>p_n = 3, p_speed = Finite (1 / 2), p_steps = 2\<rparr>"
  have e: "edges_per_step ?p = 1" by code_simp
  have "drawn counting = drawn \<lparr>raw = min 4, drawn = 0\<rparr> \<and>
    (\<forall>k. drawn counting \<le> k \<and> k < drawn counting + 2 * nat (p_steps ?p) * edges_per_step ?p
        \<longrightarrow> raw counting k = raw \<lparr>raw = min 4, drawn = 0\<rparr> k)"
    unfolding e by (simp add: counting_def)
  with run_repeatable [of counting "\<lparr>raw = min 4, drawn = 0\<rparr>" ?p]
  have "run ?p counting = run ?p \<lparr>raw = min 4, drawn = 0\<rparr>" by blast
  with run_example_3 show ?thesis by simp
qed

text \<open>
  Claim C10. In every run and at every recorded step the largest cluster fraction is at
  least \<open>1 / n\<close>: all \<open>n\<close> nodes are in the graph from construction on and no
  component is empty.
\<close>

theorem max_cluster_fraction_at_least_one_node:
  assumes "run p g = Inr ml" and "(r, c) \<in> set ml"
  shows "1 / of_int (p_n p) \<le> c"
  using assms by (rule run_entry(2))

theorem max_cluster_fraction_at_least_one_node_witness:
  "run \<lparr>p_n = 4, p_speed = Finite 0, p_steps = 2\<rparr> counting = Inr [(0, 1 / 4), (0, 1 / 4)] \<and>
   (0, 1 / 4) \<in> set [(0 :: rat, 1 / 4 :: rat), (0, 1 / 4)] \<and>
   1 / of_int (p_n \<lparr>p_n = 4, p_speed = Finite 0, p_steps = 2\<rparr>) \<le> (1 / 4 :: rat)"
proof -
  have h: "run \<lparr>p_n = 4, p_speed = Finite 0, p_steps = 2\<rparr> counting = Inr [(0, 1 / 4), (0, 1 / 4)]"
    by code_simp
  have i: "(0, 1 / 4) \<in> set [(0 :: rat, 1 / 4 :: rat), (0, 1 / 4)]" by simp
  from max_cluster_fraction_at_least_one_node [OF h i] h i show ?thesis by blast
qed

end
